theory Spec2Isabelle
  imports Main "HOL-Library.Word" "HOL-Library.Char_ord" "HOL-Library.List_Lexorder"
begin

section \<open>The DeCentGit indexer: attestation replay over a fetched chain\<close>

text \<open>
  A shallow embedding of \<^verbatim>\<open>src/indexer/indexer.py\<close> and \<^verbatim>\<open>src/indexer/db.py\<close>.

  \<^item> Python exceptions are values: a computation that may raise has type \<open>exn + 'a\<close>
    (\<open>Inl\<close> the exception raised).
  \<^item> A Python \<open>dict\<close> with string keys is an association list with distinct keys; \<open>d[k]\<close>
    is \<open>map_of d k\<close>, raising \<open>KeyError\<close> when absent.
  \<^item> A Python \<open>str\<close> is a \<open>string\<close>; its characters are the code points below 256. Code
    points above U+00FF are outside the model.
  \<^item> A JSON value is a \<open>json\<close>; a JSON number is an integer (a number with a fraction or
    an exponent is a Python float, which is outside the model).
  \<^item> The \<open>ecdsa\<close> package is not part of the repository: the two calls the indexer makes
    into it are a parameter of the model, a record of two functions that return or raise.
  \<^item> The SQLite database is a record of its two tables. A connection holds the committed
    tables and the tables as the connection sees them (committed plus its own uncommitted
    writes), as Python's \<open>sqlite3\<close> module does with its implicit transactions: the first
    \<open>INSERT\<close>/\<open>UPDATE\<close> opens a transaction, \<open>commit()\<close> makes the writes durable and
    \<open>close()\<close> without a commit discards them. A connection also holds how many more
    database calls succeed before one raises \<open>sqlite3.Error\<close> (\<open>None\<close>: all succeed).
  \<^item> The \<open>print\<close> lines of the transaction loop are the per-transaction outcomes the
    model returns for every committed block.
  \<^item> A block is the record of the three fields the engine reads, with integer \<open>index\<close> and
    \<open>timestamp\<close> (taken to fit SQLite's 64-bit integers); a response body that is not a
    JSON object with a list of such blocks under \<open>chain\<close> is outside the model, and so is
    a failure to open the database file, which happens before the \<open>try\<close>.
\<close>

subsection \<open>Exceptions\<close>

datatype exn =
    KeyError
  | ValueError
  | TypeError
  | BadSignatureError
  | MalformedPointError  \<comment> \<open>\<open>ecdsa.errors.MalformedPointError\<close>, a subclass of \<open>AssertionError\<close>\<close>
  | RequestException
  | SqliteError

definition and_then :: "exn + 'a \<Rightarrow> ('a \<Rightarrow> exn + 'b) \<Rightarrow> exn + 'b" where
  "and_then m f = (case m of Inl e \<Rightarrow> Inl e | Inr x \<Rightarrow> f x)"

subsection \<open>JSON values and \<open>json.dumps(..., sort_keys=True)\<close>\<close>

datatype json =
    JNull
  | JBool bool
  | JInt int
  | JStr string
  | JList "json list"
  | JObj "(string \<times> json) list"

type_synonym bytes = "8 word list"

definition hex_digit :: "nat \<Rightarrow> char" where
  "hex_digit n = ''0123456789abcdef'' ! n"

fun intercalate :: "string \<Rightarrow> string list \<Rightarrow> string" where
  "intercalate sep [] = []"
| "intercalate sep [x] = x"
| "intercalate sep (x # y # ys) = x @ sep @ intercalate sep (y # ys)"

fun nat_digits :: "nat \<Rightarrow> string" where
  "nat_digits n =
     (if n < 10 then [hex_digit n] else nat_digits (n div 10) @ [hex_digit (n mod 10)])"

declare nat_digits.simps [simp del]

definition int_repr :: "int \<Rightarrow> string" where
  "int_repr i = (if i < 0 then CHR ''-'' # nat_digits (nat (- i)) else nat_digits (nat i))"

text \<open>
  The encoder's string escaping with \<open>ensure_ascii=True\<close> (the default): printable ASCII
  other than the quote and the backslash stands for itself, seven characters have a short
  escape, every other code point \<open>n\<close> is written \<^verbatim>\<open>\u\<close> and four lower-case hex digits.
\<close>

definition escape_char :: "char \<Rightarrow> string" where
  "escape_char c =
     (if c = CHR 0x22 then [CHR 0x5C, CHR 0x22]
      else if c = CHR 0x5C then [CHR 0x5C, CHR 0x5C]
      else if c = CHR 0x0A then [CHR 0x5C, CHR ''n'']
      else if c = CHR 0x0D then [CHR 0x5C, CHR ''r'']
      else if c = CHR 0x09 then [CHR 0x5C, CHR ''t'']
      else if c = CHR 0x08 then [CHR 0x5C, CHR ''b'']
      else if c = CHR 0x0C then [CHR 0x5C, CHR ''f'']
      else if (32::nat) \<le> of_char c \<and> of_char c \<le> (126::nat) then [c]
      else [CHR 0x5C, CHR ''u'', CHR ''0'', CHR ''0'',
            hex_digit (of_char c div 16), hex_digit (of_char c mod 16)])"

definition encode_basestring_ascii :: "string \<Rightarrow> string" where
  "encode_basestring_ascii s = [CHR 0x22] @ concat (map escape_char s) @ [CHR 0x22]"

text \<open>
  \<open>json.dumps\<close> with the default separators \<^verbatim>\<open>", "\<close> and \<^verbatim>\<open>": "\<close>; with \<open>sort_keys=True\<close>
  the items of every object are sorted by key before they are written.
\<close>

function dumps :: "json \<Rightarrow> string" where
  "dumps JNull = ''null''"
| "dumps (JBool b) = (if b then ''true'' else ''false'')"
| "dumps (JInt i) = int_repr i"
| "dumps (JStr s) = encode_basestring_ascii s"
| "dumps (JList xs) = ''['' @ intercalate '', '' (map dumps xs) @ '']''"
| "dumps (JObj kvs) =
     ''{'' @ intercalate '', ''
        (map (\<lambda>kv. encode_basestring_ascii (fst kv) @ '': '' @ dumps (snd kv))
           (sort_key fst kvs)) @ ''}''"
  by pat_completeness auto
termination
proof (relation "measure size")
  show "wf (measure size)" by simp
next
  fix xs :: "json list" and x assume "x \<in> set xs"
  then show "(x, JList xs) \<in> measure size"
    by (induction xs) auto
next
  fix kvs :: "(string \<times> json) list" and kv
  assume "kv \<in> set (sort_key fst kvs)"
  then have "kv \<in> set kvs" by simp
  then show "(snd kv, JObj kvs) \<in> measure size"
    by (induction kvs) auto
qed

text \<open>\<open>str.encode('utf-8')\<close> on the encoder's output, which is ASCII only.\<close>

definition encode_utf8 :: "string \<Rightarrow> bytes" where
  "encode_utf8 s = map (\<lambda>c. of_nat (of_char c)) s"

subsection \<open>\<open>bytes.fromhex\<close>\<close>

definition is_space :: "char \<Rightarrow> bool" where
  "is_space c = (c = CHR '' '' \<or> ((9::nat) \<le> of_char c \<and> of_char c \<le> (13::nat)))"

definition hex_val :: "char \<Rightarrow> nat option" where
  "hex_val c =
     (let n = of_char c :: nat in
      if 48 \<le> n \<and> n \<le> 57 then Some (n - 48)
      else if 97 \<le> n \<and> n \<le> 102 then Some (n - 87)
      else if 65 \<le> n \<and> n \<le> 70 then Some (n - 55)
      else None)"

text \<open>
  Two hex digits per byte; ASCII whitespace between bytes is skipped; anything else is a
  \<open>ValueError\<close>.
\<close>

fun fromhex :: "string \<Rightarrow> exn + bytes" where
  "fromhex [] = Inr []"
| "fromhex [c] = (if is_space c then Inr [] else Inl ValueError)"
| "fromhex (c # d # ds) =
     (if is_space c then fromhex (d # ds)
      else case (hex_val c, hex_val d) of
          (Some h, Some l) \<Rightarrow>
            (case fromhex ds of Inl e \<Rightarrow> Inl e | Inr bs \<Rightarrow> Inr (of_nat (16 * h + l) # bs))
        | _ \<Rightarrow> Inl ValueError)"

text \<open>\<open>bytes.fromhex(v)\<close> on a JSON value: an argument that is not a \<open>str\<close> is a \<open>TypeError\<close>.\<close>

definition bytes_fromhex :: "json \<Rightarrow> exn + bytes" where
  "bytes_fromhex v = (case v of JStr s \<Rightarrow> fromhex s | _ \<Rightarrow> Inl TypeError)"

subsection \<open>The signature verifier\<close>

text \<open>
  The two entry points of the \<open>ecdsa\<close> package that \<open>verify_signature\<close> calls:
  \<open>VerifyingKey.from_string(b, curve=NIST256p)\<close> and \<open>vk.verify(signature, message)\<close>.
\<close>

record 'vk ecdsa =
  from_string :: "bytes \<Rightarrow> exn + 'vk"
  verify :: "'vk \<Rightarrow> bytes \<Rightarrow> bytes \<Rightarrow> exn + bool"

type_synonym attestation = "(string \<times> json) list"

definition getitem :: "(string \<times> 'a) list \<Rightarrow> string \<Rightarrow> exn + 'a" where
  "getitem d k = (case map_of d k of None \<Rightarrow> Inl KeyError | Some v \<Rightarrow> Inr v)"

definition signed_fields :: "string list" where
  "signed_fields = [''repo_id'', ''ref'', ''old_commit'', ''new_commit'']"

definition attestation_data :: "attestation \<Rightarrow> attestation" where
  "attestation_data att = filter (\<lambda>kv. fst kv \<in> set signed_fields) att"

definition canonical_message :: "attestation \<Rightarrow> bytes" where
  "canonical_message att = encode_utf8 (dumps (JObj (attestation_data att)))"

text \<open>
  The canonical message as the specification words it: the serialization of exactly the
  four fields \<open>repo_id\<close>, \<open>ref\<close>, \<open>old_commit\<close> and \<open>new_commit\<close>, those of them the record
  has, in the order of their names.
\<close>

definition signed_items :: "attestation \<Rightarrow> (string \<times> json) list" where
  "signed_items att =
     List.map_filter (\<lambda>k. map_option (Pair k) (map_of att k))
       [''new_commit'', ''old_commit'', ''ref'', ''repo_id'']"

definition canonical_spec :: "attestation \<Rightarrow> bytes" where
  "canonical_spec att =
     encode_utf8 (''{'' @ intercalate '', ''
        (map (\<lambda>kv. encode_basestring_ascii (fst kv) @ '': '' @ dumps (snd kv))
           (signed_items att)) @ ''}'')"

text \<open>The body of the \<open>try\<close> block, line by line.\<close>

definition verify_signature_body :: "'vk ecdsa \<Rightarrow> attestation \<Rightarrow> exn + bool" where
  "verify_signature_body lib att =
     and_then (getitem att ''signer_identity'') (\<lambda>signer_identity.
     and_then (bytes_fromhex signer_identity) (\<lambda>key_bytes.
     and_then (from_string lib key_bytes) (\<lambda>vk.
     let message = canonical_message att in
     and_then (getitem att ''signature'') (\<lambda>sig_hex.
     and_then (bytes_fromhex sig_hex) (\<lambda>signature.
     and_then (verify lib vk signature message) (\<lambda>_. Inr True))))))"

text \<open>\<open>except (ecdsa.keys.BadSignatureError, KeyError, ValueError): return False\<close>\<close>

definition verify_signature :: "'vk ecdsa \<Rightarrow> attestation \<Rightarrow> exn + bool" where
  "verify_signature lib att =
     (case verify_signature_body lib att of
        Inr b \<Rightarrow> Inr b
      | Inl e \<Rightarrow> if e \<in> set [BadSignatureError, KeyError, ValueError] then Inr False else Inl e)"

subsection \<open>The database\<close>

definition GENESIS_COMMIT :: string where
  "GENESIS_COMMIT = ''0000000000000000000000000000000000000000''"

text \<open>
  Table \<open>meta\<close> maps a key to an integer; table \<open>refs\<close> has the primary key
  \<open>(repo_id, ref_name)\<close> and the columns \<open>commit_hash\<close> and \<open>updated_at\<close>.
\<close>

record db =
  meta :: "string \<rightharpoonup> int"
  refs :: "string \<times> string \<rightharpoonup> string \<times> int"

definition empty_db :: db where
  "empty_db = \<lparr>meta = Map.empty, refs = Map.empty\<rparr>"

text \<open>\<open>setup_database\<close>: the tables exist; \<open>INSERT OR IGNORE\<close> of the checkpoint row.\<close>

definition setup_database :: "db \<Rightarrow> db" where
  "setup_database d =
     (if meta d ''last_processed_block'' = None
      then d\<lparr>meta := (meta d)(''last_processed_block'' \<mapsto> 0)\<rparr> else d)"

record conn =
  durable :: db
  working :: db
  calls_ok :: "nat option"

definition get_db_connection :: "db \<Rightarrow> nat option \<Rightarrow> conn" where
  "get_db_connection d n = \<lparr>durable = d, working = d, calls_ok = n\<rparr>"

text \<open>Every call into the database either raises \<open>sqlite3.Error\<close> or goes through.\<close>

definition execute :: "conn \<Rightarrow> exn + conn" where
  "execute c =
     (case calls_ok c of
        None \<Rightarrow> Inr c
      | Some 0 \<Rightarrow> Inl SqliteError
      | Some (Suc n) \<Rightarrow> Inr (c\<lparr>calls_ok := Some n\<rparr>))"

text \<open>\<open>SELECT value FROM meta WHERE key = 'last_processed_block'\<close>, then \<open>fetchone()\<close>.\<close>

definition select_last_processed_block :: "conn \<Rightarrow> exn + conn \<times> int option" where
  "select_last_processed_block c =
     and_then (execute c) (\<lambda>c1. Inr (c1, meta (working c1) ''last_processed_block''))"

text \<open>\<open>SELECT commit_hash FROM refs WHERE repo_id = ? AND ref_name = ?\<close>, then \<open>fetchone()\<close>.\<close>

definition select_commit_hash :: "conn \<Rightarrow> string \<Rightarrow> string \<Rightarrow> exn + conn \<times> string option" where
  "select_commit_hash c repo_id ref_name =
     and_then (execute c) (\<lambda>c1. Inr (c1, map_option fst (refs (working c1) (repo_id, ref_name))))"

text \<open>\<open>INSERT OR REPLACE INTO refs (repo_id, ref_name, commit_hash, updated_at)\<close>\<close>

definition insert_or_replace_ref ::
  "conn \<Rightarrow> string \<Rightarrow> string \<Rightarrow> string \<Rightarrow> int \<Rightarrow> exn + conn" where
  "insert_or_replace_ref c repo_id ref_name commit_hash updated_at =
     and_then (execute c) (\<lambda>c1.
       Inr (c1\<lparr>working := (working c1)
              \<lparr>refs := (refs (working c1))((repo_id, ref_name) \<mapsto> (commit_hash, updated_at))\<rparr>\<rparr>))"

text \<open>
  \<open>UPDATE meta SET value = ? WHERE key = 'last_processed_block'\<close>: an \<open>UPDATE\<close> changes the
  rows that exist, and none when the row is missing.
\<close>

definition update_last_processed_block :: "conn \<Rightarrow> int \<Rightarrow> exn + conn" where
  "update_last_processed_block c i =
     and_then (execute c) (\<lambda>c1.
       Inr (if meta (working c1) ''last_processed_block'' = None then c1
            else c1\<lparr>working := (working c1)
                   \<lparr>meta := (meta (working c1))(''last_processed_block'' \<mapsto> i)\<rparr>\<rparr>))"

definition commit :: "conn \<Rightarrow> exn + conn" where
  "commit c = and_then (execute c) (\<lambda>c1. Inr (c1\<lparr>durable := working c1\<rparr>))"

text \<open>\<open>conn.close()\<close>: what is left is what was committed.\<close>

definition close :: "conn \<Rightarrow> db" where
  "close c = durable c"

subsection \<open>The replay engine\<close>

text \<open>
  A transaction is a JSON object; the engine is modelled on the objects whose values are
  strings, as the data model types every attestation field. A block has the three fields
  the engine reads.
\<close>

type_synonym tx = "(string \<times> string) list"

record block =
  index :: int
  timestamp :: int
  transactions :: "tx list"

definition att_of_tx :: "tx \<Rightarrow> attestation" where
  "att_of_tx t = map (\<lambda>kv. (fst kv, JStr (snd kv))) t"

definition attestation_fields :: "string list" where
  "attestation_fields =
     [''repo_id'', ''ref'', ''old_commit'', ''new_commit'', ''signer_identity'', ''signature'']"

text \<open>\<open>all(k in tx for k in [...])\<close>\<close>

definition is_attestation :: "tx \<Rightarrow> bool" where
  "is_attestation t = list_all (\<lambda>k. map_of t k \<noteq> None) attestation_fields"

text \<open>What the loop body prints for a transaction it is done with.\<close>

datatype tx_outcome =
    Skipped_non_attestation
  | Skipped_bad_signature
  | Skipped_inconsistent
  | Updated

text \<open>The body of \<open>for tx in block['transactions']\<close>.\<close>

definition process_tx :: "'vk ecdsa \<Rightarrow> block \<Rightarrow> conn \<Rightarrow> tx \<Rightarrow> exn + conn \<times> tx_outcome" where
  "process_tx lib blk c t =
     (if \<not> is_attestation t
      then Inr (c, Skipped_non_attestation)
      else
        and_then (verify_signature lib (att_of_tx t)) (\<lambda>ok.
        if \<not> ok then Inr (c, Skipped_bad_signature)
        else
          and_then (getitem t ''repo_id'') (\<lambda>repo_id.
          and_then (getitem t ''ref'') (\<lambda>ref.
          and_then (select_commit_hash c repo_id ref) (\<lambda>(c1, result).
          let current_commit_in_db = (case result of Some h \<Rightarrow> h | None \<Rightarrow> GENESIS_COMMIT) in
          and_then (getitem t ''old_commit'') (\<lambda>old_commit.
          if old_commit \<noteq> current_commit_in_db then Inr (c1, Skipped_inconsistent)
          else
            and_then (getitem t ''new_commit'') (\<lambda>new_commit.
            and_then (insert_or_replace_ref c1 repo_id ref new_commit (timestamp blk)) (\<lambda>c2.
            Inr (c2, Updated)))))))))"

fun process_txs ::
  "'vk ecdsa \<Rightarrow> block \<Rightarrow> conn \<Rightarrow> tx list \<Rightarrow> exn + conn \<times> tx_outcome list" where
  "process_txs lib blk c [] = Inr (c, [])"
| "process_txs lib blk c (t # ts) =
     and_then (process_tx lib blk c t) (\<lambda>(c1, out).
     and_then (process_txs lib blk c1 ts) (\<lambda>(c2, outs). Inr (c2, out # outs)))"

text \<open>
  The body of \<open>for block in sorted(...)\<close>: the transactions, the checkpoint, the commit.
\<close>

definition process_block :: "'vk ecdsa \<Rightarrow> conn \<Rightarrow> block \<Rightarrow> exn + conn \<times> tx_outcome list" where
  "process_block lib c blk =
     and_then (process_txs lib blk c (transactions blk)) (\<lambda>(c1, outs).
     and_then (update_last_processed_block c1 (index blk)) (\<lambda>c2.
     and_then (commit c2) (\<lambda>c3. Inr (c3, outs))))"

text \<open>
  The block loop. It returns the connection as the last commit left it, the committed blocks
  with their outcomes, and the exception that ended the loop, if one did.
\<close>

fun process_blocks ::
  "'vk ecdsa \<Rightarrow> conn \<Rightarrow> block list \<Rightarrow> conn \<times> (block \<times> tx_outcome list) list \<times> exn option" where
  "process_blocks lib c [] = (c, [], None)"
| "process_blocks lib c (blk # blks) =
     (case process_block lib c blk of
        Inl e \<Rightarrow> (c, [], Some e)
      | Inr (c1, outs) \<Rightarrow>
          (case process_blocks lib c1 blks of (c2, rep, r) \<Rightarrow> (c2, (blk, outs) # rep, r)))"

text \<open>
  The response of \<open>GET /chain\<close>: \<open>requests\<close> raises (unreachable, timeout, status not 2xx)
  or the body holds the chain.
\<close>

datatype fetch = Fetch_failed | Fetched "block list"

text \<open>
  How a cycle ends: normally (with or without new blocks), in one of the two \<open>except\<close>
  clauses, or with an exception that leaves \<open>process_chain\<close>.
\<close>

datatype status = No_new_blocks | Completed | Fetch_error | Database_error | Uncaught exn

definition handler :: "exn \<Rightarrow> status" where
  "handler e =
     (if e = RequestException then Fetch_error
      else if e = SqliteError then Database_error
      else Uncaught e)"

record cycle =
  store :: db
  report :: "(block \<times> tx_outcome list) list"
  status :: status

definition process_chain :: "'vk ecdsa \<Rightarrow> fetch \<Rightarrow> nat option \<Rightarrow> db \<Rightarrow> cycle" where
  "process_chain lib response n d =
     (let c = get_db_connection d n in
      case select_last_processed_block c of
        Inl e \<Rightarrow> \<lparr>store = close c, report = [], status = handler e\<rparr>
      | Inr (c1, row) \<Rightarrow>
          let last_processed_block = (case row of Some v \<Rightarrow> v | None \<Rightarrow> 0) in
          (case response of
             Fetch_failed \<Rightarrow> \<lparr>store = close c1, report = [], status = handler RequestException\<rparr>
           | Fetched chain \<Rightarrow>
               let new_blocks = filter (\<lambda>b. index b > last_processed_block) chain in
               if new_blocks = [] then \<lparr>store = close c1, report = [], status = No_new_blocks\<rparr>
               else
                 (case process_blocks lib c1 (sort_key index new_blocks) of
                    (c2, rep, r) \<Rightarrow>
                      \<lparr>store = close c2, report = rep,
                       status = (case r of None \<Rightarrow> Completed | Some e \<Rightarrow> handler e)\<rparr>)))"

text \<open>
  The polling loop \<open>while True: process_chain(); time.sleep(15)\<close> over the responses and
  database faults of successive cycles. An exception that leaves \<open>process_chain\<close> ends the
  process.
\<close>

fun run_cycles ::
  "'vk ecdsa \<Rightarrow> db \<Rightarrow> (fetch \<times> nat option) list \<Rightarrow> db \<times> (block \<times> tx_outcome list) list" where
  "run_cycles lib d [] = (d, [])"
| "run_cycles lib d ((response, n) # envs) =
     (let r = process_chain lib response n d in
      case status r of
        Uncaught e \<Rightarrow> (store r, report r)
      | _ \<Rightarrow> (case run_cycles lib (store r) envs of (d', rep) \<Rightarrow> (d', report r @ rep)))"

subsection \<open>Reading the store, and what a report says\<close>

text \<open>The checkpoint as the engine reads it: the row's value, 0 when the row is missing.\<close>

definition last_processed_block :: "db \<Rightarrow> int" where
  "last_processed_block d = (case meta d ''last_processed_block'' of Some v \<Rightarrow> v | None \<Rightarrow> 0)"

text \<open>The blocks a cycle goes through: \<open>sorted([b for b in chain if b['index'] > last], ...)\<close>.\<close>

definition new_blocks :: "db \<Rightarrow> block list \<Rightarrow> block list" where
  "new_blocks d chain = sort_key index (filter (\<lambda>b. index b > last_processed_block d) chain)"

text \<open>The stored head of a key: its \<open>commit_hash\<close>, the genesis sentinel when absent.\<close>

definition get_head :: "db \<Rightarrow> string \<times> string \<Rightarrow> string" where
  "get_head d k = (case refs d k of Some row \<Rightarrow> fst row | None \<Rightarrow> GENESIS_COMMIT)"

definition field :: "tx \<Rightarrow> string \<Rightarrow> string" where
  "field t k = (case map_of t k of Some v \<Rightarrow> v | None \<Rightarrow> [])"

definition tx_key :: "tx \<Rightarrow> string \<times> string" where
  "tx_key t = (field t ''repo_id'', field t ''ref'')"

text \<open>
  A chain of custody from head \<open>h\<close> to head \<open>h'\<close>: a list of (old commit, new commit) pairs,
  each starting where the one before it ended.
\<close>

fun custody_chain :: "string \<Rightarrow> (string \<times> string) list \<Rightarrow> string \<Rightarrow> bool" where
  "custody_chain h [] h' = (h = h')"
| "custody_chain h (link # links) h' = (fst link = h \<and> custody_chain (snd link) links h')"

text \<open>The accepted transactions on a key, in order, as (old commit, new commit) pairs.\<close>

definition accepted_txs :: "string \<times> string \<Rightarrow> tx list \<Rightarrow> tx_outcome list \<Rightarrow> (string \<times> string) list" where
  "accepted_txs k ts outs =
     map (\<lambda>p. (field (fst p) ''old_commit'', field (fst p) ''new_commit''))
       (filter (\<lambda>p. snd p = Updated \<and> tx_key (fst p) = k) (zip ts outs))"

definition accepted_on ::
  "string \<times> string \<Rightarrow> (block \<times> tx_outcome list) list \<Rightarrow> (string \<times> string) list" where
  "accepted_on k rep = concat (map (\<lambda>p. accepted_txs k (transactions (fst p)) (snd p)) rep)"

text \<open>The \<open>refs\<close> table after the accepted transactions of a report are applied to it.\<close>

definition apply_outcome ::
  "block \<Rightarrow> (string \<times> string \<rightharpoonup> string \<times> int) \<Rightarrow> tx \<times> tx_outcome \<Rightarrow>
   (string \<times> string \<rightharpoonup> string \<times> int)" where
  "apply_outcome blk m p =
     (if snd p = Updated
      then m(tx_key (fst p) \<mapsto> (field (fst p) ''new_commit'', timestamp blk)) else m)"

definition replay_block ::
  "(string \<times> string \<rightharpoonup> string \<times> int) \<Rightarrow> block \<times> tx_outcome list \<Rightarrow>
   (string \<times> string \<rightharpoonup> string \<times> int)" where
  "replay_block m p = foldl (apply_outcome (fst p)) m (zip (transactions (fst p)) (snd p))"

definition replay ::
  "(string \<times> string \<rightharpoonup> string \<times> int) \<Rightarrow> (block \<times> tx_outcome list) list \<Rightarrow>
   (string \<times> string \<rightharpoonup> string \<times> int)" where
  "replay m rep = foldl replay_block m rep"

subsection \<open>A stand-in for the \<open>ecdsa\<close> package, to run the model on examples\<close>

text \<open>
  Keys are 64 bytes (the raw encoding of a P-256 point), anything else is refused with
  \<open>MalformedPointError\<close>, as \<open>VerifyingKey.from_string\<close> refuses a string of the wrong
  length; \<open>verify\<close> returns \<open>True\<close> or raises \<open>BadSignatureError\<close>, as \<open>VerifyingKey.verify\<close>
  does. The signature it accepts is a toy: the key's first byte and the message's length.
\<close>

definition demo_from_string :: "bytes \<Rightarrow> exn + bytes" where
  "demo_from_string b = (if length b = 64 then Inr b else Inl MalformedPointError)"

definition demo_verify :: "bytes \<Rightarrow> bytes \<Rightarrow> bytes \<Rightarrow> exn + bool" where
  "demo_verify vk sg msg =
     (if sg = [hd vk, of_nat (length msg)] then Inr True else Inl BadSignatureError)"

definition demo_ecdsa :: "bytes ecdsa" where
  "demo_ecdsa = \<lparr>from_string = demo_from_string, verify = demo_verify\<rparr>"

definition demo_key :: string where
  "demo_key = concat (replicate 64 ''a1'')"

text \<open>Commits and transactions for the examples.\<close>

definition commit_a :: string where
  "commit_a = ''aaaaaaaaaaaaaaaaaaaaaaaaaaaaaaaaaaaaaaaa''"

definition commit_b :: string where
  "commit_b = ''bbbbbbbbbbbbbbbbbbbbbbbbbbbbbbbbbbbbbbbb''"

definition commit_c :: string where
  "commit_c = ''cccccccccccccccccccccccccccccccccccccccc''"

definition demo_tx :: "string \<Rightarrow> string \<Rightarrow> string \<Rightarrow> string \<Rightarrow> tx" where
  "demo_tx ref_name old new sig_hex =
     [(''repo_id'', ''r1''), (''ref'', ref_name), (''old_commit'', old), (''new_commit'', new),
      (''signer_identity'', demo_key), (''signature'', sig_hex)]"

text \<open>Genesis to a, a to b (both signed), b to c with a bad signature, c to a out of turn.\<close>

definition tx_genesis_a :: tx where
  "tx_genesis_a = demo_tx ''main'' GENESIS_COMMIT commit_a ''a194''"

definition tx_a_b :: tx where
  "tx_a_b = demo_tx ''main'' commit_a commit_b ''a194''"

definition tx_b_c_unsigned :: tx where
  "tx_b_c_unsigned = demo_tx ''main'' commit_b commit_c ''0000''"

definition tx_c_a_stale :: tx where
  "tx_c_a_stale = demo_tx ''main'' commit_c commit_a ''a194''"

definition tx_dev_genesis_c :: tx where
  "tx_dev_genesis_c = demo_tx ''dev'' GENESIS_COMMIT commit_c ''a193''"

definition tx_other_kind :: tx where
  "tx_other_kind = [(''sender'', ''alice''), (''recipient'', ''bob''), (''amount'', ''5'')]"

definition block_1 :: block where
  "block_1 = \<lparr>index = 1, timestamp = 1700000001,
     transactions = [tx_other_kind, tx_genesis_a, tx_b_c_unsigned, tx_c_a_stale, tx_a_b]\<rparr>"

definition block_2 :: block where
  "block_2 = \<lparr>index = 2, timestamp = 1700000002, transactions = [tx_dev_genesis_c]\<rparr>"

text \<open>A block with two chained attestations on \<open>main\<close> and one on \<open>dev\<close> between them.\<close>

definition block_3 :: block where
  "block_3 = \<lparr>index = 3, timestamp = 1700000003,
     transactions = [tx_other_kind, tx_genesis_a, tx_dev_genesis_c, tx_a_b]\<rparr>"

text \<open>The first attestation again, from another signer, its fields in another order.\<close>

definition att_genesis_a_other :: attestation where
  "att_genesis_a_other =
     [(''nonce'', JInt 7), (''new_commit'', JStr commit_a), (''signature'', JStr ''ff''),
      (''repo_id'', JStr ''r1''), (''old_commit'', JStr GENESIS_COMMIT),
      (''signer_identity'', JStr ''0b''), (''ref'', JStr ''main'')]"

definition db_0 :: db where
  "db_0 = setup_database empty_db"

section \<open>Helper lemmas\<close>

lemma and_then_simps [simp]:
  "and_then (Inl e) f = Inl e"
  "and_then (Inr x) f = f x"
  by (simp_all add: and_then_def)

lemma and_then_eq_Inr:
  "and_then m f = Inr y \<longleftrightarrow> (\<exists>x. m = Inr x \<and> f x = Inr y)"
  by (cases m) simp_all

lemma execute_unlimited [simp]: "calls_ok c = None \<Longrightarrow> execute c = Inr c"
  by (simp add: execute_def)

lemma execute_Inr:
  "execute c = Inr c1 \<Longrightarrow> durable c1 = durable c \<and> working c1 = working c"
  by (auto simp: execute_def split: option.splits nat.splits)

lemma execute_Inl: "execute c = Inl e \<Longrightarrow> e = SqliteError"
  by (auto simp: execute_def split: option.splits nat.splits)

lemma execute_erase:
  "execute c = Inr c1 \<Longrightarrow> execute (c\<lparr>calls_ok := None\<rparr>) = Inr (c1\<lparr>calls_ok := None\<rparr>)"
  by (auto simp: execute_def split: option.splits nat.splits)

lemma getitem_Some [simp]: "map_of d k = Some v \<Longrightarrow> getitem d k = Inr v"
  by (simp add: getitem_def)

lemma is_attestation_iff:
  "is_attestation t \<longleftrightarrow>
     (\<exists>r f old new sid sg. map_of t ''repo_id'' = Some r \<and> map_of t ''ref'' = Some f \<and>
        map_of t ''old_commit'' = Some old \<and> map_of t ''new_commit'' = Some new \<and>
        map_of t ''signer_identity'' = Some sid \<and> map_of t ''signature'' = Some sg)"
  by (auto simp: is_attestation_def attestation_fields_def)

lemma is_attestation_fields:
  assumes "is_attestation t"
  shows "map_of t ''repo_id'' = Some (field t ''repo_id'')"
    and "map_of t ''ref'' = Some (field t ''ref'')"
    and "map_of t ''old_commit'' = Some (field t ''old_commit'')"
    and "map_of t ''new_commit'' = Some (field t ''new_commit'')"
  using assms by (auto simp: is_attestation_iff field_def)

subsection \<open>The transaction step, by cases\<close>

lemma process_tx_non_attestation:
  "\<not> is_attestation t \<Longrightarrow> process_tx lib blk c t = Inr (c, Skipped_non_attestation)"
  by (simp add: process_tx_def)

lemma process_tx_raises:
  "is_attestation t \<Longrightarrow> verify_signature lib (att_of_tx t) = Inl e \<Longrightarrow>
   process_tx lib blk c t = Inl e"
  by (simp add: process_tx_def)

lemma process_tx_bad_signature:
  "is_attestation t \<Longrightarrow> verify_signature lib (att_of_tx t) = Inr False \<Longrightarrow>
   process_tx lib blk c t = Inr (c, Skipped_bad_signature)"
  by (simp add: process_tx_def)

lemma process_tx_checked:
  assumes "is_attestation t" "verify_signature lib (att_of_tx t) = Inr True"
  shows "process_tx lib blk c t =
     and_then (execute c) (\<lambda>c1.
       if field t ''old_commit'' \<noteq> get_head (working c) (tx_key t)
       then Inr (c1, Skipped_inconsistent)
       else and_then (insert_or_replace_ref c1 (field t ''repo_id'') (field t ''ref'')
              (field t ''new_commit'') (timestamp blk)) (\<lambda>c2. Inr (c2, Updated)))"
proof (cases "execute c")
  case (Inl e)
  with assms is_attestation_fields [OF assms(1)] show ?thesis
    by (simp add: process_tx_def select_commit_hash_def)
next
  case (Inr c1)
  then have "working c1 = working c" by (simp add: execute_Inr)
  with Inr assms is_attestation_fields [OF assms(1)] show ?thesis
    by (simp add: process_tx_def select_commit_hash_def get_head_def tx_key_def
        split: option.splits)
qed



lemma insert_or_replace_ref_Inr:
  "insert_or_replace_ref c r f h u = Inr c1 \<Longrightarrow>
   durable c1 = durable c \<and> meta (working c1) = meta (working c) \<and>
   refs (working c1) = (refs (working c))((r, f) \<mapsto> (h, u))"
  by (auto simp: insert_or_replace_ref_def and_then_eq_Inr dest!: execute_Inr)

text \<open>What a transaction step that returns has done.\<close>

lemma process_tx_Inr_all:
  assumes "process_tx lib blk c t = Inr (c1, out)"
  shows "durable c1 = durable c \<and> meta (working c1) = meta (working c) \<and>
    refs (working c1) = apply_outcome blk (refs (working c)) (t, out) \<and>
    (out = Updated \<longrightarrow> field t ''old_commit'' = get_head (working c) (tx_key t)) \<and>
    (out \<noteq> Updated \<longrightarrow> working c1 = working c)"
proof (cases "is_attestation t")
  case False
  with assms show ?thesis
    by (auto simp: process_tx_non_attestation apply_outcome_def)
next
  case att: True
  show ?thesis
  proof (cases "verify_signature lib (att_of_tx t)")
    case (Inl e)
    with att assms show ?thesis by (simp add: process_tx_raises)
  next
    case (Inr ok)
    show ?thesis
    proof (cases ok)
      case False
      with att Inr assms show ?thesis
        by (auto simp: process_tx_bad_signature apply_outcome_def)
    next
      case True
      with att Inr assms show ?thesis
        by (auto simp: process_tx_checked and_then_eq_Inr apply_outcome_def tx_key_def
            split: if_splits dest!: execute_Inr insert_or_replace_ref_Inr)
    qed
  qed
qed

lemma process_tx_Inr:
  assumes "process_tx lib blk c t = Inr (c1, out)"
  shows "durable c1 = durable c"
    and "meta (working c1) = meta (working c)"
    and "refs (working c1) = apply_outcome blk (refs (working c)) (t, out)"
    and "out = Updated \<Longrightarrow> field t ''old_commit'' = get_head (working c) (tx_key t)"
    and "out \<noteq> Updated \<Longrightarrow> working c1 = working c"
  using process_tx_Inr_all [OF assms] by simp_all

subsection \<open>Database faults only take away: a step that went through goes through without them\<close>

lemma execute_erase_eq:
  "execute c = Inr c1 \<Longrightarrow> c1\<lparr>calls_ok := None\<rparr> = c\<lparr>calls_ok := None\<rparr>"
  by (auto simp: execute_def split: option.splits nat.splits)

lemma insert_or_replace_ref_erase:
  "insert_or_replace_ref c r f h u = Inr c1 \<Longrightarrow>
   insert_or_replace_ref (c\<lparr>calls_ok := None\<rparr>) r f h u = Inr (c1\<lparr>calls_ok := None\<rparr>)"
  by (auto simp: insert_or_replace_ref_def execute_def split: option.splits nat.splits)

lemma update_last_processed_block_erase:
  "update_last_processed_block c i = Inr c1 \<Longrightarrow>
   update_last_processed_block (c\<lparr>calls_ok := None\<rparr>) i = Inr (c1\<lparr>calls_ok := None\<rparr>)"
  by (auto simp: update_last_processed_block_def execute_def split: option.splits nat.splits)

lemma commit_erase:
  "commit c = Inr c1 \<Longrightarrow> commit (c\<lparr>calls_ok := None\<rparr>) = Inr (c1\<lparr>calls_ok := None\<rparr>)"
  by (auto simp: commit_def execute_def split: option.splits nat.splits)


lemma process_tx_erase:
  assumes "process_tx lib blk c t = Inr (c1, out)"
  shows "process_tx lib blk (c\<lparr>calls_ok := None\<rparr>) t = Inr (c1\<lparr>calls_ok := None\<rparr>, out)"
proof (cases "is_attestation t")
  case False
  with assms show ?thesis by (auto simp: process_tx_non_attestation)
next
  case att: True
  show ?thesis
  proof (cases "verify_signature lib (att_of_tx t)")
    case (Inl e)
    with att assms show ?thesis by (simp add: process_tx_raises)
  next
    case (Inr ok)
    show ?thesis
    proof (cases ok)
      case False
      with att Inr assms show ?thesis by (auto simp: process_tx_bad_signature)
    next
      case True
      from Inr True have "verify_signature lib (att_of_tx t) = Inr True" by simp
      note checked = process_tx_checked [OF att this]
      from assms obtain ce where ce: "execute c = Inr ce"
        and rest: "(if field t ''old_commit'' \<noteq> get_head (working c) (tx_key t)
            then Inr (ce, Skipped_inconsistent)
            else and_then (insert_or_replace_ref ce (field t ''repo_id'') (field t ''ref'')
                   (field t ''new_commit'') (timestamp blk)) (\<lambda>c2. Inr (c2, Updated)))
           = Inr (c1, out)"
        by (auto simp: checked and_then_eq_Inr)
      have e: "ce\<lparr>calls_ok := None\<rparr> = c\<lparr>calls_ok := None\<rparr>"
        using ce by (rule execute_erase_eq)
      show ?thesis
      proof (cases "field t ''old_commit'' \<noteq> get_head (working c) (tx_key t)")
        case True
        with rest e show ?thesis by (auto simp: checked)
      next
        case False
        with rest have "insert_or_replace_ref ce (field t ''repo_id'') (field t ''ref'')
            (field t ''new_commit'') (timestamp blk) = Inr c1" and "out = Updated"
          by (auto simp: and_then_eq_Inr)
        with insert_or_replace_ref_erase [OF this(1)] e False show ?thesis
          by (simp add: checked)
      qed
    qed
  qed
qed

subsection \<open>The transaction loop\<close>

lemma process_txs_append:
  "process_txs lib blk c (xs @ ys) =
     and_then (process_txs lib blk c xs) (\<lambda>p.
     and_then (process_txs lib blk (fst p) ys) (\<lambda>q. Inr (fst q, snd p @ snd q)))"
proof (induction xs arbitrary: c)
  case Nil
  show ?case by (cases "process_txs lib blk c ys") auto
next
  case (Cons x xs)
  show ?case
  proof (cases "process_tx lib blk c x")
    case (Inl e)
    then show ?thesis by simp
  next
    case (Inr p)
    obtain c1 out where p: "p = (c1, out)" by (cases p)
    show ?thesis
      using Inr p Cons.IH [of c1]
      by (cases "process_txs lib blk c1 xs")
         (auto simp: and_then_def split: sum.splits prod.splits)
  qed
qed

lemma process_txs_Cons_Inr:
  "process_txs lib blk c (t # ts) = Inr (c2, outs) \<longleftrightarrow>
     (\<exists>c1 out outs'. process_tx lib blk c t = Inr (c1, out) \<and>
        process_txs lib blk c1 ts = Inr (c2, outs') \<and> outs = out # outs')"
  by (auto simp: and_then_def split: sum.splits prod.splits)

lemma accepted_txs_Nil [simp]: "accepted_txs k [] outs = []"
  by (simp add: accepted_txs_def)

lemma accepted_txs_Cons [simp]:
  "accepted_txs k (t # ts) (out # outs) =
     (if out = Updated \<and> tx_key t = k
      then (field t ''old_commit'', field t ''new_commit'') # accepted_txs k ts outs
      else accepted_txs k ts outs)"
  by (simp add: accepted_txs_def)

lemma get_head_apply_outcome:
  assumes "refs d' = apply_outcome blk (refs d) (t, out)"
  shows "get_head d' k =
    (if out = Updated \<and> tx_key t = k then field t ''new_commit'' else get_head d k)"
  using assms by (auto simp: get_head_def apply_outcome_def)

lemma process_txs_Inr:
  assumes "process_txs lib blk c ts = Inr (c2, outs)"
  shows "length outs = length ts \<and> durable c2 = durable c \<and>
    meta (working c2) = meta (working c) \<and>
    refs (working c2) = foldl (apply_outcome blk) (refs (working c)) (zip ts outs) \<and>
    custody_chain (get_head (working c) k) (accepted_txs k ts outs) (get_head (working c2) k)"
  using assms
proof (induction ts arbitrary: c outs)
  case Nil
  then show ?case by auto
next
  case (Cons t ts)
  from Cons.prems [unfolded process_txs_Cons_Inr] obtain c1 out outs' where
    step: "process_tx lib blk c t = Inr (c1, out)" and
    rest: "process_txs lib blk c1 ts = Inr (c2, outs')" and outs: "outs = out # outs'"
    by blast
  note s = process_tx_Inr [OF step]
  note ih = Cons.IH [OF rest]
  have h: "get_head (working c1) k =
    (if out = Updated \<and> tx_key t = k then field t ''new_commit'' else get_head (working c) k)"
    using s(3) by (rule get_head_apply_outcome)
  have "custody_chain (get_head (working c) k) (accepted_txs k (t # ts) outs) (get_head (working c2) k)"
  proof (cases "out = Updated \<and> tx_key t = k")
    case True
    with s(4) ih h outs show ?thesis by auto
  next
    case False
    with ih h outs show ?thesis by auto
  qed
  with s ih outs show ?case by simp
qed

lemma process_txs_erase:
  "process_txs lib blk c ts = Inr (c2, outs) \<Longrightarrow>
   process_txs lib blk (c\<lparr>calls_ok := None\<rparr>) ts = Inr (c2\<lparr>calls_ok := None\<rparr>, outs)"
proof (induction ts arbitrary: c outs)
  case Nil
  then show ?case by auto
next
  case (Cons t ts)
  from Cons.prems [unfolded process_txs_Cons_Inr] obtain c1 out outs' where
    step: "process_tx lib blk c t = Inr (c1, out)" and
    rest: "process_txs lib blk c1 ts = Inr (c2, outs')" and outs: "outs = out # outs'"
    by blast
  from process_tx_erase [OF step] Cons.IH [OF rest] outs show ?case
    by simp
qed


subsection \<open>A block\<close>

lemma update_last_processed_block_Inr:
  "update_last_processed_block c i = Inr c1 \<Longrightarrow>
   durable c1 = durable c \<and> refs (working c1) = refs (working c) \<and>
   meta (working c1) =
     (if meta (working c) ''last_processed_block'' = None then meta (working c)
      else (meta (working c))(''last_processed_block'' \<mapsto> i))"
  by (auto simp: update_last_processed_block_def and_then_eq_Inr dest!: execute_Inr)

lemma commit_Inr: "commit c = Inr c1 \<Longrightarrow> durable c1 = working c \<and> working c1 = working c"
  by (auto simp: commit_def and_then_eq_Inr dest!: execute_Inr)

lemma get_head_cong: "refs d = refs d' \<Longrightarrow> get_head d k = get_head d' k"
  by (simp add: get_head_def)

lemma process_block_eq_Inr:
  "process_block lib c blk = Inr (c3, outs) \<longleftrightarrow>
     (\<exists>c1 c2. process_txs lib blk c (transactions blk) = Inr (c1, outs) \<and>
        update_last_processed_block c1 (index blk) = Inr c2 \<and> commit c2 = Inr c3)"
  by (auto simp: process_block_def and_then_def split: sum.splits prod.splits)

lemma process_block_Inr:
  assumes "process_block lib c blk = Inr (c3, outs)"
  shows "length outs = length (transactions blk) \<and> working c3 = durable c3 \<and>
    meta (durable c3) =
      (if meta (working c) ''last_processed_block'' = None then meta (working c)
       else (meta (working c))(''last_processed_block'' \<mapsto> index blk)) \<and>
    refs (durable c3) = replay_block (refs (working c)) (blk, outs) \<and>
    custody_chain (get_head (working c) k) (accepted_txs k (transactions blk) outs)
      (get_head (durable c3) k)"
proof -
  from assms [unfolded process_block_eq_Inr] obtain c1 c2 where
    txs: "process_txs lib blk c (transactions blk) = Inr (c1, outs)" and
    upd: "update_last_processed_block c1 (index blk) = Inr c2" and
    com: "commit c2 = Inr c3"
    by blast
  note t = process_txs_Inr [OF txs, of k]
  note u = update_last_processed_block_Inr [OF upd]
  note m = commit_Inr [OF com]
  have "get_head (durable c3) k = get_head (working c1) k"
    using u m by (simp add: get_head_def)
  with t u m show ?thesis
    by (simp add: replay_block_def)
qed

lemma process_block_erase:
  assumes "process_block lib c blk = Inr (c3, outs)"
  shows "process_block lib (c\<lparr>calls_ok := None\<rparr>) blk = Inr (c3\<lparr>calls_ok := None\<rparr>, outs)"
proof -
  from assms [unfolded process_block_eq_Inr] obtain c1 c2 where
    txs: "process_txs lib blk c (transactions blk) = Inr (c1, outs)" and
    upd: "update_last_processed_block c1 (index blk) = Inr c2" and
    com: "commit c2 = Inr c3"
    by blast
  from process_txs_erase [OF txs] update_last_processed_block_erase [OF upd]
    commit_erase [OF com]
  show ?thesis unfolding process_block_eq_Inr by blast
qed

subsection \<open>The block loop\<close>

lemma custody_chain_append:
  "custody_chain a xs b \<Longrightarrow> custody_chain b ys c \<Longrightarrow> custody_chain a (xs @ ys) c"
  by (induction xs arbitrary: a) auto

lemma accepted_on_Nil [simp]: "accepted_on k [] = []"
  by (simp add: accepted_on_def)

lemma accepted_on_Cons [simp]:
  "accepted_on k (p # rep) = accepted_txs k (transactions (fst p)) (snd p) @ accepted_on k rep"
  by (simp add: accepted_on_def)

lemma accepted_on_append [simp]:
  "accepted_on k (xs @ ys) = accepted_on k xs @ accepted_on k ys"
  by (simp add: accepted_on_def)

lemma replay_Nil [simp]: "replay m [] = m"
  by (simp add: replay_def)

lemma replay_Cons [simp]: "replay m (p # rep) = replay (replay_block m p) rep"
  by (simp add: replay_def)

lemma replay_append [simp]: "replay m (xs @ ys) = replay (replay m xs) ys"
  by (simp add: replay_def)

lemma process_blocks_Cons:
  "process_blocks lib c (blk # blks) = (c2, rep, r) \<longleftrightarrow>
     ((\<exists>e. process_block lib c blk = Inl e \<and> c2 = c \<and> rep = [] \<and> r = Some e) \<or>
      (\<exists>c1 outs rep'. process_block lib c blk = Inr (c1, outs) \<and>
         process_blocks lib c1 blks = (c2, rep', r) \<and> rep = (blk, outs) # rep'))"
  by (auto split: sum.splits prod.splits)

text \<open>
  The loop keeps the connection clean between blocks, commits a prefix of the blocks it was
  given, and leaves the tables as the report says.
\<close>

lemma process_blocks_facts:
  assumes "process_blocks lib c blks = (c2, rep, r)" and "working c = durable c"
  shows "working c2 = durable c2 \<and>
    map fst rep = take (length rep) blks \<and> length rep \<le> length blks \<and>
    (r = None \<longleftrightarrow> length rep = length blks) \<and>
    list_all (\<lambda>p. length (snd p) = length (transactions (fst p))) rep \<and>
    refs (durable c2) = replay (refs (durable c)) rep \<and>
    custody_chain (get_head (durable c) k) (accepted_on k rep) (get_head (durable c2) k) \<and>
    meta (durable c2) =
      (if rep = [] \<or> meta (durable c) ''last_processed_block'' = None then meta (durable c)
       else (meta (durable c))(''last_processed_block'' \<mapsto> index (fst (last rep))))"
  using assms
proof (induction blks arbitrary: c rep)
  case Nil
  then show ?case by auto
next
  case (Cons blk blks)
  from Cons.prems(1) [unfolded process_blocks_Cons]
  consider (raised) e where "process_block lib c blk = Inl e" "c2 = c" "rep = []" "r = Some e"
    | (committed) c1 outs rep' where "process_block lib c blk = Inr (c1, outs)"
        "process_blocks lib c1 blks = (c2, rep', r)" "rep = (blk, outs) # rep'"
    by blast
  then show ?case
  proof cases
    case raised
    with Cons.prems(2) show ?thesis by simp
  next
    case committed
    note b = process_block_Inr [OF committed(1), of k]
    from b have clean: "working c1 = durable c1" by simp
    note ih = Cons.IH [OF committed(2) clean]
    have ch: "custody_chain (get_head (durable c) k) (accepted_on k rep) (get_head (durable c2) k)"
      using b ih Cons.prems(2) committed(3) by (auto intro: custody_chain_append)
    have me: "meta (durable c2) =
      (if rep = [] \<or> meta (durable c) ''last_processed_block'' = None then meta (durable c)
       else (meta (durable c))(''last_processed_block'' \<mapsto> index (fst (last rep))))"
      using b ih Cons.prems(2) committed(3) by (auto split: if_splits)
    from b ih Cons.prems(2) committed(3) ch me show ?thesis by simp
  qed
qed

lemma process_blocks_erase:
  "process_blocks lib c blks = (c2, rep, r) \<Longrightarrow>
   process_blocks lib (c\<lparr>calls_ok := None\<rparr>) (take (length rep) blks) =
     (c2\<lparr>calls_ok := None\<rparr>, rep, None)"
proof (induction blks arbitrary: c rep)
  case Nil
  then show ?case by auto
next
  case (Cons blk blks)
  from Cons.prems(1) [unfolded process_blocks_Cons]
  consider (raised) e where "process_block lib c blk = Inl e" "c2 = c" "rep = []" "r = Some e"
    | (committed) c1 outs rep' where "process_block lib c blk = Inr (c1, outs)"
        "process_blocks lib c1 blks = (c2, rep', r)" "rep = (blk, outs) # rep'"
    by blast
  then show ?case
  proof cases
    case raised
    then show ?thesis by simp
  next
    case committed
    from process_block_erase [OF committed(1)] Cons.IH [OF committed(2)] committed(3)
    show ?thesis by simp
  qed
qed


subsection \<open>A cycle\<close>

lemma execute_fresh:
  "execute (get_db_connection d n) = Inr c1 \<Longrightarrow> working c1 = d \<and> durable c1 = d"
  by (auto dest!: execute_Inr simp: get_db_connection_def)

lemma sort_key_eq_Nil [simp]: "sort_key f xs = [] \<longleftrightarrow> xs = []"
  by (metis length_0_conv length_sort)

lemma process_chain_Fetch_failed:
  "process_chain lib Fetch_failed n d =
     \<lparr>store = d, report = [], status = (if n = Some 0 then Database_error else Fetch_error)\<rparr>"
proof (cases "execute (get_db_connection d n)")
  case (Inl e)
  then have "n = Some 0" "e = SqliteError"
    by (auto simp: execute_def get_db_connection_def split: option.splits nat.splits)
  with Inl show ?thesis
    by (simp add: process_chain_def select_last_processed_block_def close_def
        get_db_connection_def handler_def)
next
  case (Inr c1)
  then have "n \<noteq> Some 0"
    by (auto simp: execute_def get_db_connection_def)
  with Inr execute_fresh [OF Inr] show ?thesis
    by (simp add: process_chain_def select_last_processed_block_def close_def handler_def)
qed

lemma process_chain_Fetched:
  "process_chain lib (Fetched chain) n d =
     (case execute (get_db_connection d n) of
        Inl e \<Rightarrow> \<lparr>store = d, report = [], status = handler e\<rparr>
      | Inr c1 \<Rightarrow>
          if new_blocks d chain = [] then \<lparr>store = d, report = [], status = No_new_blocks\<rparr>
          else (case process_blocks lib c1 (new_blocks d chain) of
                  (c2, rep, r) \<Rightarrow>
                    \<lparr>store = durable c2, report = rep,
                     status = (case r of None \<Rightarrow> Completed | Some e \<Rightarrow> handler e)\<rparr>))"
proof (cases "execute (get_db_connection d n)")
  case (Inl e)
  then show ?thesis
    by (simp add: process_chain_def select_last_processed_block_def close_def
        get_db_connection_def)
next
  case (Inr c1)
  note f = execute_fresh [OF Inr]
  have nb: "sort_key index
      (filter (\<lambda>b. (case meta d ''last_processed_block'' of None \<Rightarrow> 0 | Some v \<Rightarrow> v) < index b) chain)
      = new_blocks d chain"
    by (simp add: new_blocks_def last_processed_block_def)
  have em: "filter (\<lambda>b. (case meta d ''last_processed_block'' of None \<Rightarrow> 0 | Some v \<Rightarrow> v) < index b) chain = []
      \<longleftrightarrow> new_blocks d chain = []"
    unfolding nb [symmetric] by simp
  show ?thesis
    using Inr f
    by (simp add: process_chain_def select_last_processed_block_def close_def Let_def nb em
        split: prod.splits)
qed

lemma new_blocks_sorted: "sorted (map index (new_blocks d chain))"
  by (simp add: new_blocks_def)

lemma new_blocks_set:
  "set (new_blocks d chain) = {b \<in> set chain. last_processed_block d < index b}"
  by (auto simp: new_blocks_def)

lemma new_blocks_take:
  "new_blocks d (take j (new_blocks d chain)) = take j (new_blocks d chain)"
proof -
  let ?bs = "new_blocks d chain"
  have "\<And>b. b \<in> set (take j ?bs) \<Longrightarrow> last_processed_block d < index b"
    using new_blocks_set [of d chain] by (auto dest: in_set_takeD)
  then have "filter (\<lambda>b. index b > last_processed_block d) (take j ?bs) = take j ?bs"
    by (simp add: filter_id_conv)
  moreover have "sorted (map index (take j ?bs))"
    using new_blocks_sorted [of d chain] by (simp add: take_map [symmetric] sorted_wrt_take)
  ultimately show ?thesis
    by (simp add: new_blocks_def [of d "take j ?bs"] sort_key_id_if_sorted)
qed

text \<open>What every cycle does to the store, whatever the response and the faults.\<close>

lemma process_chain_store:
  "refs (store (process_chain lib response n d)) =
      replay (refs d) (report (process_chain lib response n d)) \<and>
   custody_chain (get_head d k) (accepted_on k (report (process_chain lib response n d)))
      (get_head (store (process_chain lib response n d)) k) \<and>
   list_all (\<lambda>p. length (snd p) = length (transactions (fst p)))
      (report (process_chain lib response n d)) \<and>
   meta (store (process_chain lib response n d)) =
      (if report (process_chain lib response n d) = [] \<or>
          meta d ''last_processed_block'' = None then meta d
       else (meta d)(''last_processed_block'' \<mapsto>
               index (fst (last (report (process_chain lib response n d))))))"
proof (cases response)
  case Fetch_failed
  then show ?thesis by (simp add: process_chain_Fetch_failed)
next
  case (Fetched chain)
  show ?thesis
  proof (cases "execute (get_db_connection d n)")
    case (Inl e)
    with Fetched show ?thesis by (simp add: process_chain_Fetched)
  next
    case (Inr c1)
    note f = execute_fresh [OF Inr]
    show ?thesis
    proof (cases "new_blocks d chain = []")
      case True
      with Fetched Inr show ?thesis by (simp add: process_chain_Fetched)
    next
      case False
      obtain c2 rep r where pb: "process_blocks lib c1 (new_blocks d chain) = (c2, rep, r)"
        by (cases "process_blocks lib c1 (new_blocks d chain)")
      from f have clean: "working c1 = durable c1" by simp
      from process_blocks_facts [OF pb clean, of k] f Fetched Inr False pb
      show ?thesis by (simp add: process_chain_Fetched)
    qed
  qed
qed

lemma process_chain_prefix:
  "\<exists>j \<le> length (new_blocks d chain).
     map fst (report (process_chain lib (Fetched chain) n d)) = take j (new_blocks d chain) \<and>
     (status (process_chain lib (Fetched chain) n d) \<in> {Completed, No_new_blocks}
        \<longrightarrow> j = length (new_blocks d chain))"
proof (cases "execute (get_db_connection d n)")
  case (Inl e)
  then have "e = SqliteError" by (rule execute_Inl)
  with Inl show ?thesis
    by (intro exI [of _ 0]) (simp add: process_chain_Fetched handler_def)
next
  case (Inr c1)
  note f = execute_fresh [OF Inr]
  show ?thesis
  proof (cases "new_blocks d chain = []")
    case True
    with Inr show ?thesis by (simp add: process_chain_Fetched)
  next
    case False
    obtain c2 rep r where pb: "process_blocks lib c1 (new_blocks d chain) = (c2, rep, r)"
      by (cases "process_blocks lib c1 (new_blocks d chain)")
    from f have clean: "working c1 = durable c1" by simp
    note facts = process_blocks_facts [OF pb clean, of "(''x'', ''y'')"]
    show ?thesis
      using facts Inr False pb
      by (intro exI [of _ "length rep"])
         (auto simp: process_chain_Fetched handler_def split: option.splits if_splits)
  qed
qed


subsection \<open>Without database faults\<close>

lemma erase_unlimited: "calls_ok c = None \<Longrightarrow> c\<lparr>calls_ok := None\<rparr> = c"
  by (cases c) simp

lemma process_tx_unlimited:
  assumes "process_tx lib blk c t = Inr (c1, out)" and "calls_ok c = None"
  shows "calls_ok c1 = None"
proof -
  from process_tx_erase [OF assms(1)] assms
  have "c1 = c1\<lparr>calls_ok := None\<rparr>" by (simp add: erase_unlimited)
  then have "calls_ok c1 = calls_ok (c1\<lparr>calls_ok := None\<rparr>)" by simp
  then show ?thesis by simp
qed

lemma process_tx_accept:
  assumes "is_attestation t" and "verify_signature lib (att_of_tx t) = Inr True"
    and "calls_ok c = None"
  shows "process_tx lib blk c t =
    (if field t ''old_commit'' = get_head (working c) (tx_key t)
     then Inr (c\<lparr>working := (working c)
            \<lparr>refs := (refs (working c))(tx_key t \<mapsto> (field t ''new_commit'', timestamp blk))\<rparr>\<rparr>,
          Updated)
     else Inr (c, Skipped_inconsistent))"
  using assms(3)
  by (simp add: process_tx_checked [OF assms(1,2)] insert_or_replace_ref_def tx_key_def)

lemma process_tx_total:
  assumes "calls_ok c = None"
    and "is_attestation t \<Longrightarrow> \<exists>b. verify_signature lib (att_of_tx t) = Inr b"
  shows "\<exists>c1 out. process_tx lib blk c t = Inr (c1, out)"
proof (cases "is_attestation t")
  case False
  then show ?thesis by (simp add: process_tx_non_attestation)
next
  case True
  with assms(2) obtain b where b: "verify_signature lib (att_of_tx t) = Inr b" by blast
  show ?thesis
  proof (cases b)
    case True
    with b \<open>is_attestation t\<close> assms(1) show ?thesis
      by (simp add: process_tx_accept)
  next
    case False
    with b \<open>is_attestation t\<close> show ?thesis
      by (simp add: process_tx_bad_signature)
  qed
qed


lemma process_txs_unlimited:
  assumes "process_txs lib blk c ts = Inr (c1, outs)" and "calls_ok c = None"
  shows "calls_ok c1 = None"
proof -
  from process_txs_erase [OF assms(1)] assms
  have "c1 = c1\<lparr>calls_ok := None\<rparr>" by (simp add: erase_unlimited)
  then have "calls_ok c1 = calls_ok (c1\<lparr>calls_ok := None\<rparr>)" by simp
  then show ?thesis by simp
qed

text \<open>Transactions on other keys leave a key's entry alone.\<close>

lemma process_txs_other_keys:
  assumes "calls_ok c = None"
    and "\<And>t. t \<in> set ts \<Longrightarrow> tx_key t \<noteq> k"
    and "\<And>t. t \<in> set ts \<Longrightarrow> is_attestation t \<Longrightarrow> \<exists>b. verify_signature lib (att_of_tx t) = Inr b"
  shows "\<exists>c1 outs. process_txs lib blk c ts = Inr (c1, outs) \<and> calls_ok c1 = None \<and>
    length outs = length ts \<and> refs (working c1) k = refs (working c) k"
  using assms
proof (induction ts arbitrary: c)
  case Nil
  then show ?case by simp
next
  case (Cons t ts)
  from process_tx_total [OF Cons.prems(1), of t lib blk] Cons.prems(3)
  obtain c1 out where step: "process_tx lib blk c t = Inr (c1, out)"
    by auto
  from process_tx_unlimited [OF step Cons.prems(1)] have u: "calls_ok c1 = None" .
  from process_tx_Inr(3) [OF step] Cons.prems(2) [of t]
  have same: "refs (working c1) k = refs (working c) k"
    by (simp add: apply_outcome_def)
  from Cons.IH [OF u] Cons.prems(2,3)
  obtain c2 outs where rest: "process_txs lib blk c1 ts = Inr (c2, outs)"
    and r: "calls_ok c2 = None" "length outs = length ts"
      "refs (working c2) k = refs (working c1) k"
    by auto
  from step rest r same show ?case by simp
qed


subsection \<open>The polling loop\<close>

lemma run_cycles_Cons:
  "run_cycles lib d ((response, n) # envs) =
     (case status (process_chain lib response n d) of
        Uncaught e \<Rightarrow> (store (process_chain lib response n d), report (process_chain lib response n d))
      | _ \<Rightarrow> (fst (run_cycles lib (store (process_chain lib response n d)) envs),
              report (process_chain lib response n d) @
              snd (run_cycles lib (store (process_chain lib response n d)) envs)))"
  by (simp add: Let_def split: status.splits prod.splits)

lemma run_cycles_Nil: "run_cycles lib d [] = (d, [])"
  by simp

declare run_cycles.simps [simp del]


subsection \<open>The checkpoint and the new blocks\<close>

lemma sorted_map_le_last:
  "sorted (map f xs) \<Longrightarrow> x \<in> set xs \<Longrightarrow> f x \<le> f (last xs)"
  by (induction xs) auto

lemma last_take_nth:
  assumes "0 < j" and "j \<le> length xs"
  shows "last (take j xs) = xs ! (j - 1)"
proof -
  from assms have "take j xs \<noteq> []" by auto
  then have "last (take j xs) = take j xs ! (length (take j xs) - 1)"
    by (rule last_conv_nth)
  also from assms have "\<dots> = xs ! (j - 1)" by (simp add: min_def)
  finally show ?thesis .
qed

lemma distinct_map_sort_key:
  "distinct (map f xs) \<Longrightarrow> distinct (map f (sort_key f xs))"
  by (simp add: distinct_map)

lemma new_blocks_distinct:
  "distinct (map index chain) \<Longrightarrow> distinct (map index (new_blocks d chain))"
  by (simp add: new_blocks_def distinct_map_sort_key distinct_map_filter)

lemma new_blocks_filter:
  "new_blocks d (filter (\<lambda>b. index b > last_processed_block d) chain) = new_blocks d chain"
  by (simp add: new_blocks_def)

lemma new_blocks_old_Nil:
  "list_all (\<lambda>b. index b \<le> last_processed_block d) chain \<Longrightarrow> new_blocks d chain = []"
  by (auto simp: new_blocks_def list_all_iff filter_empty_conv)

lemma process_chain_cong_new_blocks:
  assumes "new_blocks d chain = new_blocks d chain'"
  shows "process_chain lib (Fetched chain) n d = process_chain lib (Fetched chain') n d"
proof -
  have "process_chain lib (Fetched chain) n d =
     (case execute (get_db_connection d n) of
        Inl e \<Rightarrow> \<lparr>store = d, report = [], status = handler e\<rparr>
      | Inr c1 \<Rightarrow>
          if new_blocks d chain' = [] then \<lparr>store = d, report = [], status = No_new_blocks\<rparr>
          else (case process_blocks lib c1 (new_blocks d chain') of
                  (c2, rep, r) \<Rightarrow>
                    \<lparr>store = durable c2, report = rep,
                     status = (case r of None \<Rightarrow> Completed | Some e \<Rightarrow> handler e)\<rparr>))"
    unfolding assms [symmetric] by (rule process_chain_Fetched)
  also have "\<dots> = process_chain lib (Fetched chain') n d"
    by (rule process_chain_Fetched [symmetric])
  finally show ?thesis .
qed

lemma last_processed_block_store:
  "last_processed_block (store (process_chain lib response n d)) =
     (if report (process_chain lib response n d) = [] \<or> meta d ''last_processed_block'' = None
      then last_processed_block d
      else index (fst (last (report (process_chain lib response n d)))))"
  using process_chain_store [of lib response n d "(''x'', ''y'')"]
  by (simp add: last_processed_block_def)

lemma report_prefix:
  "\<exists>j \<le> length (new_blocks d chain).
     map fst (report (process_chain lib (Fetched chain) n d)) = take j (new_blocks d chain)"
  using process_chain_prefix [of d chain lib n] by blast

lemma report_blocks_new:
  assumes "p \<in> set (report (process_chain lib response n d))"
  shows "last_processed_block d < index (fst p)"
proof (cases response)
  case Fetch_failed
  with assms show ?thesis by (simp add: process_chain_Fetch_failed)
next
  case (Fetched chain)
  from report_prefix [of d chain lib n] obtain j where
    j: "map fst (report (process_chain lib (Fetched chain) n d)) = take j (new_blocks d chain)"
    by blast
  from assms Fetched have "fst p \<in> set (map fst (report (process_chain lib (Fetched chain) n d)))"
    by simp
  with j have "fst p \<in> set (new_blocks d chain)"
    by (auto dest: in_set_takeD)
  then show ?thesis by (simp add: new_blocks_set)
qed

lemma report_sorted:
  "sorted (map (\<lambda>p. index (fst p)) (report (process_chain lib response n d)))"
proof (cases response)
  case Fetch_failed
  then show ?thesis by (simp add: process_chain_Fetch_failed)
next
  case (Fetched chain)
  from report_prefix [of d chain lib n] obtain j where
    j: "map fst (report (process_chain lib (Fetched chain) n d)) = take j (new_blocks d chain)"
    by blast
  have "map (\<lambda>p. index (fst p)) (report (process_chain lib (Fetched chain) n d)) =
      map index (map fst (report (process_chain lib (Fetched chain) n d)))"
    by simp
  also have "\<dots> = take j (map index (new_blocks d chain))"
    by (simp only: j take_map)
  finally show ?thesis
    using new_blocks_sorted [of d chain] Fetched by (simp add: sorted_wrt_take)
qed

lemma checkpoint_mono:
  "last_processed_block d \<le> last_processed_block (store (process_chain lib response n d))"
proof (cases "report (process_chain lib response n d) = []")
  case True
  then show ?thesis by (simp add: last_processed_block_store)
next
  case False
  then have "last (report (process_chain lib response n d))
      \<in> set (report (process_chain lib response n d))"
    by simp
  from report_blocks_new [OF this] show ?thesis
    by (simp add: last_processed_block_store)
qed


subsection \<open>A cycle with faults against the cycle without\<close>

lemma fresh_erase:
  "execute (get_db_connection d n) = Inr c1 \<Longrightarrow>
   c1\<lparr>calls_ok := None\<rparr> = get_db_connection d None"
  by (drule execute_erase_eq) (simp add: get_db_connection_def)

lemma prefix_run:
  assumes ex: "execute (get_db_connection d n) = Inr c1"
    and pb: "process_blocks lib c1 (new_blocks d chain) = (c2, rep, ro)"
  shows "process_chain lib (Fetched (take (length rep) (new_blocks d chain))) None d =
    \<lparr>store = durable c2, report = rep,
     status = (if length rep = 0 then No_new_blocks else Completed)\<rparr>"
proof -
  let ?nb = "new_blocks d chain"
  let ?c = "get_db_connection d None"
  have un: "execute ?c = Inr ?c"
    by (simp add: get_db_connection_def)
  note f = execute_fresh [OF ex]
  from f have clean: "working c1 = durable c1" by simp
  note facts = process_blocks_facts [OF pb clean, of "(''x'', ''y'')"]
  from process_blocks_erase [OF pb] fresh_erase [OF ex]
  have run: "process_blocks lib ?c (take (length rep) ?nb) = (c2\<lparr>calls_ok := None\<rparr>, rep, None)"
    by simp
  have nb: "new_blocks d (take (length rep) ?nb) = take (length rep) ?nb"
    by (rule new_blocks_take)
  show ?thesis
  proof (cases "rep = []")
    case True
    with run have "c2\<lparr>calls_ok := None\<rparr> = ?c" by simp
    then have "durable (c2\<lparr>calls_ok := None\<rparr>) = durable ?c" by simp
    then have "durable c2 = d" by (simp add: get_db_connection_def)
    with True un show ?thesis
      by (simp add: process_chain_Fetched new_blocks_def)
  next
    case False
    with facts have "take (length rep) ?nb \<noteq> []" by auto
    with False un run nb show ?thesis
      by (simp add: process_chain_Fetched)
  qed
qed

lemma checkpoint_below_next:
  assumes rep: "map fst (report (process_chain lib (Fetched chain) n d)) =
      take j (new_blocks d chain)"
    and j: "j < length (new_blocks d chain)"
  shows "last_processed_block (store (process_chain lib (Fetched chain) n d))
      \<le> index (new_blocks d chain ! j)"
    and "distinct (map index chain) \<Longrightarrow>
      last_processed_block (store (process_chain lib (Fetched chain) n d))
        < index (new_blocks d chain ! j)"
proof -
  let ?r = "process_chain lib (Fetched chain) n d"
  let ?nb = "new_blocks d chain"
  from j have "?nb ! j \<in> set ?nb" by simp
  then have newer: "last_processed_block d < index (?nb ! j)"
    by (simp add: new_blocks_set)
  from rep j have len: "length (report ?r) = j"
    by (metis length_map length_take min.absorb2 less_imp_le)
  have cp: "last_processed_block (store ?r) = last_processed_block d \<or>
      (0 < j \<and> last_processed_block (store ?r) = index (?nb ! (j - 1)))"
  proof (cases "report ?r = [] \<or> meta d ''last_processed_block'' = None")
    case True
    then show ?thesis by (simp only: last_processed_block_store if_True simp_thms)
  next
    case False
    then have ne: "report ?r \<noteq> []" by simp
    with len have pos: "0 < j" by auto
    from ne have "fst (last (report ?r)) = last (map fst (report ?r))"
      by (simp add: last_map)
    also have "\<dots> = ?nb ! (j - 1)"
      using pos j by (simp only: rep) (simp add: last_take_nth)
    finally have "last_processed_block (store ?r) = index (?nb ! (j - 1))"
      using False by (simp only: last_processed_block_store if_False)
    with pos show ?thesis by simp
  qed
  have mono: "0 < j \<Longrightarrow> index (?nb ! (j - 1)) \<le> index (?nb ! j)"
    using sorted_nth_mono [OF new_blocks_sorted [of d chain], of "j - 1" j] j
    by simp
  from cp newer mono
  show "last_processed_block (store ?r) \<le> index (?nb ! j)" by auto
  assume "distinct (map index chain)"
  then have "sorted_wrt (<) (map index ?nb)"
    by (simp add: strict_sorted_iff new_blocks_sorted new_blocks_distinct)
  from sorted_wrt_nth_less [OF this, of "j - 1" j] j
  have "0 < j \<Longrightarrow> index (?nb ! (j - 1)) < index (?nb ! j)" by simp
  with cp newer
  show "last_processed_block (store ?r) < index (?nb ! j)" by auto
qed

section \<open>The claims\<close>

subsection \<open>C2: the verifier and malformed input\<close>

text \<open>
  What the verifier does: it returns \<open>True\<close> exactly when both hex fields are strings that
  decode, the package takes the key, and its \<open>verify\<close> returns on the signature and the
  canonical message; it raises exactly what its body raises outside the three classes of the
  \<open>except\<close> clause; in every other case it returns \<open>False\<close>.
\<close>

lemma verify_signature_body_Inr:
  "verify_signature_body lib att = Inr ok \<longleftrightarrow>
     ok \<and> (\<exists>sid sg kb sb vk b.
        map_of att ''signer_identity'' = Some (JStr sid) \<and> fromhex sid = Inr kb \<and>
        from_string lib kb = Inr vk \<and>
        map_of att ''signature'' = Some (JStr sg) \<and> fromhex sg = Inr sb \<and>
        verify lib vk sb (canonical_message att) = Inr b)"
  by (auto simp: verify_signature_body_def and_then_eq_Inr getitem_def bytes_fromhex_def
      split: option.splits json.splits)

lemma verify_signature_True_iff:
  "verify_signature lib att = Inr True \<longleftrightarrow>
     (\<exists>sid sg kb sb vk b.
        map_of att ''signer_identity'' = Some (JStr sid) \<and> fromhex sid = Inr kb \<and>
        from_string lib kb = Inr vk \<and>
        map_of att ''signature'' = Some (JStr sg) \<and> fromhex sg = Inr sb \<and>
        verify lib vk sb (canonical_message att) = Inr b)"
proof (cases "verify_signature_body lib att")
  case (Inl e)
  then have "\<And>ok. verify_signature_body lib att \<noteq> Inr ok" by simp
  then have "\<not> (\<exists>sid sg kb sb vk b.
        map_of att ''signer_identity'' = Some (JStr sid) \<and> fromhex sid = Inr kb \<and>
        from_string lib kb = Inr vk \<and>
        map_of att ''signature'' = Some (JStr sg) \<and> fromhex sg = Inr sb \<and>
        verify lib vk sb (canonical_message att) = Inr b)"
    using verify_signature_body_Inr [of lib att True] by blast
  with Inl show ?thesis
    by (simp add: verify_signature_def)
next
  case (Inr ok)
  with verify_signature_body_Inr [of lib att ok] show ?thesis
    by (simp add: verify_signature_def)
qed

lemma verify_signature_raises_iff:
  "verify_signature lib att = Inl e \<longleftrightarrow>
     verify_signature_body lib att = Inl e \<and> e \<notin> {BadSignatureError, KeyError, ValueError}"
  by (cases "verify_signature_body lib att") (auto simp: verify_signature_def)

text \<open>
  C2 says that \<open>verify_signature\<close> returns a boolean on every transaction record and never
  raises. The \<open>except\<close> clause lists \<open>BadSignatureError\<close>, \<open>KeyError\<close> and \<open>ValueError\<close>;
  \<open>bytes.fromhex\<close> on a value that is not a string raises \<open>TypeError\<close>, which is none of
  them. On a record whose \<open>signer_identity\<close> is the JSON number 5 the verifier raises,
  whatever the \<open>ecdsa\<close> package does.
\<close>

theorem verify_signature_raises_TypeError:
  "verify_signature lib
     [(''repo_id'', JStr ''r1''), (''ref'', JStr ''main''),
      (''old_commit'', JStr GENESIS_COMMIT), (''new_commit'', JStr ''a1''),
      (''signer_identity'', JInt 5), (''signature'', JStr ''00'')] = Inl TypeError"
  by (simp add: verify_signature_def verify_signature_body_def getitem_def bytes_fromhex_def)

text \<open>
  The same happens on a key of the wrong length once the package refuses it with
  \<open>MalformedPointError\<close>, an \<open>AssertionError\<close>: whatever the package raises outside the three
  listed classes leaves \<open>verify_signature\<close>.
\<close>

lemma verify_signature_propagates:
  assumes "map_of att ''signer_identity'' = Some (JStr s)" and "fromhex s = Inr kb"
    and "from_string lib kb = Inl e" and "e \<notin> {BadSignatureError, KeyError, ValueError}"
  shows "verify_signature lib att = Inl e"
  using assms
  by (simp add: verify_signature_def verify_signature_body_def bytes_fromhex_def)

lemma verify_signature_short_key:
  "verify_signature demo_ecdsa
     [(''repo_id'', JStr ''r1''), (''ref'', JStr ''main''),
      (''old_commit'', JStr GENESIS_COMMIT), (''new_commit'', JStr ''a1''),
      (''signer_identity'', JStr ''a1a1''), (''signature'', JStr ''00'')] = Inl MalformedPointError"
  by code_simp

subsection \<open>C8: a failed fetch\<close>

text \<open>
  C8: when the fetch of the chain fails, the cycle changes neither the checkpoint nor any
  entry of \<open>refs\<close>: the store after the cycle is the store before it. The exception is
  caught (the cycle ends in one of the two \<open>except\<close> clauses, the second one when the
  database read before the fetch already failed), so the polling loop goes on with the
  next cycle from the same store.
\<close>

theorem fetch_failure_changes_nothing:
  "store (process_chain lib Fetch_failed n d) = d \<and>
   report (process_chain lib Fetch_failed n d) = [] \<and>
   status (process_chain lib Fetch_failed n d) =
     (if n = Some 0 then Database_error else Fetch_error) \<and>
   run_cycles lib d ((Fetch_failed, n) # envs) = run_cycles lib d envs"
  by (simp add: process_chain_Fetch_failed run_cycles_Cons)


subsection \<open>Facts about the examples\<close>

lemma demo_attestations:
  "is_attestation tx_genesis_a" "is_attestation tx_a_b" "is_attestation tx_b_c_unsigned"
  "is_attestation tx_c_a_stale" "is_attestation tx_dev_genesis_c" "\<not> is_attestation tx_other_kind"
  by (simp_all add: is_attestation_def attestation_fields_def demo_tx_def tx_genesis_a_def
      tx_a_b_def tx_b_c_unsigned_def tx_c_a_stale_def tx_dev_genesis_c_def tx_other_kind_def)

lemma demo_signatures:
  "verify_signature demo_ecdsa (att_of_tx tx_genesis_a) = Inr True"
  "verify_signature demo_ecdsa (att_of_tx tx_a_b) = Inr True"
  "verify_signature demo_ecdsa (att_of_tx tx_b_c_unsigned) = Inr False"
  "verify_signature demo_ecdsa (att_of_tx tx_c_a_stale) = Inr True"
  "verify_signature demo_ecdsa (att_of_tx tx_dev_genesis_c) = Inr True"
  by code_simp+

lemma demo_fields:
  "field (demo_tx f old new sg) ''old_commit'' = old"
  "field (demo_tx f old new sg) ''new_commit'' = new"
  "tx_key (demo_tx f old new sg) = (''r1'', f)"
  by (simp_all add: field_def tx_key_def demo_tx_def)

lemma db_0_simps:
  "refs db_0 = Map.empty" "meta db_0 ''last_processed_block'' = Some 0"
  "last_processed_block db_0 = 0" "get_head db_0 k = GENESIS_COMMIT"
  by (simp_all add: db_0_def setup_database_def empty_db_def last_processed_block_def
      get_head_def)

text \<open>A cycle over both blocks, without faults and with the eleventh database call failing.\<close>

lemma demo_cycle:
  "status (process_chain demo_ecdsa (Fetched [block_2, block_1]) None db_0) = Completed"
  "report (process_chain demo_ecdsa (Fetched [block_2, block_1]) None db_0) =
     [(block_1, [Skipped_non_attestation, Updated, Skipped_bad_signature, Skipped_inconsistent,
                 Updated]),
      (block_2, [Updated])]"
  "last_processed_block (store (process_chain demo_ecdsa (Fetched [block_2, block_1]) None db_0)) = 2"
  "refs (store (process_chain demo_ecdsa (Fetched [block_2, block_1]) None db_0)) (''r1'', ''main'')
     = Some (commit_b, 1700000001)"
  by code_simp+

lemma demo_cycle_fault:
  "status (process_chain demo_ecdsa (Fetched [block_2, block_1]) (Some 10) db_0) = Database_error"
  "map fst (report (process_chain demo_ecdsa (Fetched [block_2, block_1]) (Some 10) db_0)) = [block_1]"
  "last_processed_block (store (process_chain demo_ecdsa (Fetched [block_2, block_1]) (Some 10) db_0)) = 1"
  "refs (store (process_chain demo_ecdsa (Fetched [block_2, block_1]) (Some 10) db_0)) (''r1'', ''dev'')
     = None"
  by code_simp+

subsection \<open>C3: the consistency decision\<close>

text \<open>
  C3: a well-formed attestation whose signature verifies is accepted if and only if its
  \<open>old_commit\<close> is the \<open>commit_hash\<close> stored for its \<open>(repo_id, ref)\<close>, where a key with no
  entry has the genesis sentinel, forty zeros, for its head. Accepting writes the entry
  \<open>(new_commit, block timestamp)\<close>; rejecting changes nothing. For a key never seen, the
  transaction with \<open>old_commit\<close> forty zeros is accepted and any other is rejected. (The
  database calls of the step are taken to succeed; what a failing call does is C6.)
\<close>

theorem consistency_decision:
  assumes "is_attestation t" and "verify_signature lib (att_of_tx t) = Inr True"
    and "calls_ok c = None"
  shows "process_tx lib blk c t =
      (if field t ''old_commit'' = get_head (working c) (tx_key t)
       then Inr (c\<lparr>working := (working c)
              \<lparr>refs := (refs (working c))(tx_key t \<mapsto> (field t ''new_commit'', timestamp blk))\<rparr>\<rparr>,
            Updated)
       else Inr (c, Skipped_inconsistent)) \<and>
    (refs (working c) (tx_key t) = None \<longrightarrow>
       get_head (working c) (tx_key t) = replicate 40 (CHR ''0'') \<and>
       (field t ''old_commit'' = replicate 40 (CHR ''0'') \<longrightarrow>
          process_tx lib blk c t =
            Inr (c\<lparr>working := (working c)
                  \<lparr>refs := (refs (working c))(tx_key t \<mapsto> (field t ''new_commit'', timestamp blk))\<rparr>\<rparr>,
                 Updated)) \<and>
       (field t ''old_commit'' \<noteq> replicate 40 (CHR ''0'') \<longrightarrow>
          process_tx lib blk c t = Inr (c, Skipped_inconsistent)))"
proof -
  have g: "GENESIS_COMMIT = replicate 40 (CHR ''0'')"
    by (simp add: GENESIS_COMMIT_def eval_nat_numeral)
  have "refs (working c) (tx_key t) = None \<Longrightarrow>
      get_head (working c) (tx_key t) = replicate 40 (CHR ''0'')"
    by (simp add: get_head_def g)
  then show ?thesis
    by (simp add: process_tx_accept [OF assms])
qed

theorem consistency_decision_witness:
  "is_attestation tx_genesis_a \<and>
   verify_signature demo_ecdsa (att_of_tx tx_genesis_a) = Inr True \<and>
   calls_ok (get_db_connection db_0 None) = None \<and>
   refs (working (get_db_connection db_0 None)) (tx_key tx_genesis_a) = None \<and>
   field tx_genesis_a ''old_commit'' = replicate 40 (CHR ''0'') \<and>
   (\<exists>c1. process_tx demo_ecdsa block_1 (get_db_connection db_0 None) tx_genesis_a =
      Inr (c1, Updated) \<and>
      refs (working c1) (''r1'', ''main'') = Some (commit_a, 1700000001))"
proof -
  have c: "calls_ok (get_db_connection db_0 None) = None"
    by (simp add: get_db_connection_def)
  have w: "working (get_db_connection db_0 None) = db_0"
    by (simp add: get_db_connection_def)
  have o: "field tx_genesis_a ''old_commit'' = replicate 40 (CHR ''0'')"
    by (simp add: tx_genesis_a_def demo_fields GENESIS_COMMIT_def eval_nat_numeral)
  from consistency_decision [OF demo_attestations(1) demo_signatures(1) c, of block_1]
  show ?thesis
    using demo_attestations(1) demo_signatures(1) c o
    by (simp add: w db_0_simps tx_genesis_a_def demo_fields block_1_def)
qed


subsection \<open>C9: a skipped transaction\<close>

text \<open>
  C9: a transaction that is skipped, because a required field is missing, because its
  signature does not verify, or because its \<open>old_commit\<close> is not the stored head, changes
  nothing, and the transactions after it in the block are evaluated as if it were not
  there, in the block's order: after the transactions \<open>pre\<close>, the block \<open>pre @ t # post\<close>
  goes on with \<open>post\<close> from the very connection state that \<open>pre\<close> left, exactly as the block
  \<open>pre @ post\<close> does, and the outcomes differ by the one skip. (Database calls are taken to
  succeed.)
\<close>

theorem partial_block_isolation:
  assumes "process_txs lib blk c pre = Inr (c0, outs0)" and "calls_ok c = None"
    and "\<not> is_attestation t \<or> verify_signature lib (att_of_tx t) = Inr False \<or>
         (verify_signature lib (att_of_tx t) = Inr True \<and>
          field t ''old_commit'' \<noteq> get_head (working c0) (tx_key t))"
  shows "\<exists>out. out \<noteq> Updated \<and> process_tx lib blk c0 t = Inr (c0, out) \<and>
    process_txs lib blk c (pre @ t # post) =
      and_then (process_txs lib blk c0 post) (\<lambda>q. Inr (fst q, outs0 @ out # snd q)) \<and>
    process_txs lib blk c (pre @ post) =
      and_then (process_txs lib blk c0 post) (\<lambda>q. Inr (fst q, outs0 @ snd q))"
proof -
  from process_txs_unlimited [OF assms(1,2)] have u: "calls_ok c0 = None" .
  have "\<exists>out. out \<noteq> Updated \<and> process_tx lib blk c0 t = Inr (c0, out)"
  proof (cases "is_attestation t")
    case False
    then show ?thesis by (simp add: process_tx_non_attestation)
  next
    case True
    with assms(3) consider "verify_signature lib (att_of_tx t) = Inr False"
      | "verify_signature lib (att_of_tx t) = Inr True"
        "field t ''old_commit'' \<noteq> get_head (working c0) (tx_key t)"
      by blast
    then show ?thesis
    proof cases
      case 1
      with True show ?thesis by (simp add: process_tx_bad_signature)
    next
      case 2
      with True u show ?thesis by (simp add: process_tx_accept)
    qed
  qed
  then obtain out where o: "out \<noteq> Updated" "process_tx lib blk c0 t = Inr (c0, out)"
    by blast
  have "process_txs lib blk c (pre @ t # post) =
      and_then (process_txs lib blk c0 post) (\<lambda>q. Inr (fst q, outs0 @ out # snd q))"
    using assms(1) o(2)
    by (cases "process_txs lib blk c0 post") (auto simp: process_txs_append)
  moreover have "process_txs lib blk c (pre @ post) =
      and_then (process_txs lib blk c0 post) (\<lambda>q. Inr (fst q, outs0 @ snd q))"
    using assms(1) by (simp add: process_txs_append)
  ultimately show ?thesis using o by blast
qed


theorem partial_block_isolation_witness:
  "calls_ok (get_db_connection db_0 None) = None \<and>
   verify_signature demo_ecdsa (att_of_tx tx_b_c_unsigned) = Inr False \<and>
   (\<exists>c0 outs0 out.
      process_txs demo_ecdsa block_1 (get_db_connection db_0 None) [tx_other_kind, tx_genesis_a]
        = Inr (c0, outs0) \<and>
      out \<noteq> Updated \<and> process_tx demo_ecdsa block_1 c0 tx_b_c_unsigned = Inr (c0, out) \<and>
      process_txs demo_ecdsa block_1 (get_db_connection db_0 None)
          ([tx_other_kind, tx_genesis_a] @ tx_b_c_unsigned # [tx_c_a_stale, tx_a_b]) =
        and_then (process_txs demo_ecdsa block_1 c0 [tx_c_a_stale, tx_a_b])
          (\<lambda>q. Inr (fst q, outs0 @ out # snd q)))"
proof -
  have c: "calls_ok (get_db_connection db_0 None) = None"
    by (simp add: get_db_connection_def)
  have "\<exists>c0 outs0. process_txs demo_ecdsa block_1 (get_db_connection db_0 None)
      [tx_other_kind, tx_genesis_a] = Inr (c0, outs0)"
    using c demo_attestations demo_signatures
    by (simp add: process_tx_non_attestation process_tx_accept)
  then obtain c0 outs0 where p: "process_txs demo_ecdsa block_1 (get_db_connection db_0 None)
      [tx_other_kind, tx_genesis_a] = Inr (c0, outs0)"
    by blast
  from partial_block_isolation [OF p c, of tx_b_c_unsigned "[tx_c_a_stale, tx_a_b]"]
    demo_signatures(3) p c
  show ?thesis by blast
qed

subsection \<open>C10: two attestations of one block on one key\<close>

text \<open>
  C10: when a block holds two well-formed, validly signed attestations on the same
  \<open>(repo_id, ref)\<close>, the first with \<open>old_commit\<close> the head stored before the block and the
  second with \<open>old_commit\<close> the first's \<open>new_commit\<close>, both are accepted: the second is
  checked against the head as the first left it. After the block the stored entry of the key
  is the second's \<open>new_commit\<close> with the block's timestamp. (The other transactions of the
  block are on other keys and none makes the verifier raise; database calls succeed.)
\<close>

theorem intra_block_chaining:
  assumes "transactions blk = pre @ t1 # mid @ t2 # post"
    and "is_attestation t1" and "verify_signature lib (att_of_tx t1) = Inr True"
    and "is_attestation t2" and "verify_signature lib (att_of_tx t2) = Inr True"
    and "tx_key t1 = k" and "tx_key t2 = k"
    and "field t1 ''old_commit'' = get_head (working c) k"
    and "field t2 ''old_commit'' = field t1 ''new_commit''"
    and "\<forall>t \<in> set (pre @ mid @ post). tx_key t \<noteq> k \<and>
           (is_attestation t \<longrightarrow> (\<exists>b. verify_signature lib (att_of_tx t) = Inr b))"
    and "calls_ok c = None"
  shows "\<exists>c' outs. process_block lib c blk = Inr (c', outs) \<and>
    length outs = length (transactions blk) \<and>
    outs ! length pre = Updated \<and> outs ! (length pre + 1 + length mid) = Updated \<and>
    refs (durable c') k = Some (field t2 ''new_commit'', timestamp blk)"
proof -
  have k_pre: "\<And>t. t \<in> set pre \<Longrightarrow> tx_key t \<noteq> k"
    and k_mid: "\<And>t. t \<in> set mid \<Longrightarrow> tx_key t \<noteq> k"
    and k_post: "\<And>t. t \<in> set post \<Longrightarrow> tx_key t \<noteq> k"
    using assms(10) by auto
  have v_pre: "\<And>t. t \<in> set pre \<Longrightarrow> is_attestation t \<Longrightarrow>
        \<exists>b. verify_signature lib (att_of_tx t) = Inr b"
    and v_mid: "\<And>t. t \<in> set mid \<Longrightarrow> is_attestation t \<Longrightarrow>
        \<exists>b. verify_signature lib (att_of_tx t) = Inr b"
    and v_post: "\<And>t. t \<in> set post \<Longrightarrow> is_attestation t \<Longrightarrow>
        \<exists>b. verify_signature lib (att_of_tx t) = Inr b"
    using assms(10) by auto
  \<comment> \<open>the transactions before the first attestation\<close>
  from process_txs_other_keys [OF assms(11) k_pre v_pre, of pre blk]
  obtain ca outs_a where pa: "process_txs lib blk c pre = Inr (ca, outs_a)"
    and a: "calls_ok ca = None" "length outs_a = length pre"
      "refs (working ca) k = refs (working c) k"
    by auto
  \<comment> \<open>the first attestation\<close>
  have "get_head (working ca) k = get_head (working c) k"
    using a(3) by (simp add: get_head_def)
  with assms(6,8) have "field t1 ''old_commit'' = get_head (working ca) (tx_key t1)" by simp
  with process_tx_accept [OF assms(2,3) a(1), of blk] assms(6)
  obtain cb where pb: "process_tx lib blk ca t1 = Inr (cb, Updated)"
    and b: "refs (working cb) k = Some (field t1 ''new_commit'', timestamp blk)"
    by auto
  from process_tx_unlimited [OF pb a(1)] have bu: "calls_ok cb = None" .
  \<comment> \<open>the transactions between the two\<close>
  from process_txs_other_keys [OF bu k_mid v_mid, of mid blk]
  obtain cc outs_c where pc: "process_txs lib blk cb mid = Inr (cc, outs_c)"
    and cf: "calls_ok cc = None" "length outs_c = length mid"
      "refs (working cc) k = refs (working cb) k"
    by auto
  \<comment> \<open>the second attestation\<close>
  have "get_head (working cc) k = field t1 ''new_commit''"
    using cf(3) b by (simp add: get_head_def)
  with assms(7,9) have "field t2 ''old_commit'' = get_head (working cc) (tx_key t2)" by simp
  with process_tx_accept [OF assms(4,5) cf(1), of blk] assms(7)
  obtain cd where pd: "process_tx lib blk cc t2 = Inr (cd, Updated)"
    and d: "refs (working cd) k = Some (field t2 ''new_commit'', timestamp blk)"
    by auto
  from process_tx_unlimited [OF pd cf(1)] have du: "calls_ok cd = None" .
  \<comment> \<open>the transactions after the second\<close>
  from process_txs_other_keys [OF du k_post v_post, of post blk]
  obtain ce outs_e where pe: "process_txs lib blk cd post = Inr (ce, outs_e)"
    and e: "calls_ok ce = None" "length outs_e = length post"
      "refs (working ce) k = refs (working cd) k"
    by auto
  let ?outs = "outs_a @ Updated # outs_c @ Updated # outs_e"
  have all: "process_txs lib blk c (transactions blk) = Inr (ce, ?outs)"
    using pa pb pc pd pe by (simp add: assms(1) process_txs_append)
  \<comment> \<open>the checkpoint and the commit\<close>
  obtain cf' where up: "update_last_processed_block ce (index blk) = Inr cf'"
    and f: "calls_ok cf' = None" "refs (working cf') = refs (working ce)"
    using e(1) by (auto simp: update_last_processed_block_def)
  obtain cg where co: "commit cf' = Inr cg" and g: "durable cg = working cf'"
    using f(1) by (auto simp: commit_def)
  have "process_block lib c blk = Inr (cg, ?outs)"
    unfolding process_block_eq_Inr using all up co by blast
  moreover have "length ?outs = length (transactions blk)"
    using a(2) cf(2) e(2) by (simp add: assms(1))
  moreover have "?outs ! length pre = Updated"
    using a(2) by (simp add: nth_append)
  moreover have "?outs ! (length pre + 1 + length mid) = Updated"
    using a(2) cf(2) by (simp add: nth_append nth_Cons')
  moreover have "refs (durable cg) k = Some (field t2 ''new_commit'', timestamp blk)"
    using g f(2) e(3) d by simp
  ultimately show ?thesis by blast
qed


theorem intra_block_chaining_witness:
  "\<exists>c' outs. process_block demo_ecdsa (get_db_connection db_0 None) block_3 = Inr (c', outs) \<and>
     length outs = 4 \<and> outs ! 1 = Updated \<and> outs ! 3 = Updated \<and>
     refs (durable c') (''r1'', ''main'') = Some (commit_b, 1700000003)"
proof -
  have t: "transactions block_3 = [tx_other_kind] @ tx_genesis_a # [tx_dev_genesis_c] @ tx_a_b # []"
    by (simp add: block_3_def)
  have k1: "tx_key tx_genesis_a = (''r1'', ''main'')" and k2: "tx_key tx_a_b = (''r1'', ''main'')"
    by (simp_all add: tx_genesis_a_def tx_a_b_def demo_fields)
  have h1: "field tx_genesis_a ''old_commit'' =
      get_head (working (get_db_connection db_0 None)) (''r1'', ''main'')"
    by (simp add: tx_genesis_a_def demo_fields get_db_connection_def db_0_simps)
  have h2: "field tx_a_b ''old_commit'' = field tx_genesis_a ''new_commit''"
    by (simp add: tx_genesis_a_def tx_a_b_def demo_fields)
  have o: "\<forall>t \<in> set ([tx_other_kind] @ [tx_dev_genesis_c] @ []).
      tx_key t \<noteq> (''r1'', ''main'') \<and>
      (is_attestation t \<longrightarrow> (\<exists>b. verify_signature demo_ecdsa (att_of_tx t) = Inr b))"
  proof -
    have a: "tx_key tx_other_kind \<noteq> (''r1'', ''main'')"
      by (simp add: tx_key_def field_def tx_other_kind_def)
    have b: "tx_key tx_dev_genesis_c \<noteq> (''r1'', ''main'')"
      by (simp add: tx_dev_genesis_c_def demo_fields)
    have v: "\<exists>b. verify_signature demo_ecdsa (att_of_tx tx_dev_genesis_c) = Inr b"
      using demo_signatures(5) by blast
    show ?thesis using a b v demo_attestations(6) by simp
  qed
  have c: "calls_ok (get_db_connection db_0 None) = None"
    by (simp add: get_db_connection_def)
  from intra_block_chaining [OF t demo_attestations(1) demo_signatures(1)
      demo_attestations(2) demo_signatures(2) k1 k2 h1 h2 o c]
  show ?thesis
    by (simp add: block_3_def tx_a_b_def demo_fields eval_nat_numeral)
qed

subsection \<open>C1: the chain of custody\<close>

text \<open>
  C1: over any sequence of cycles, whatever the responses and the database faults, the
  accepted transactions on a key \<open>(repo_id, ref)\<close> that the cycles committed form a chain
  of custody: the first has for \<open>old_commit\<close> the head stored before the first cycle (the
  genesis sentinel when the key had no entry), each later one has for \<open>old_commit\<close> the
  \<open>new_commit\<close> of the one before, and the head stored at the end is the last
  \<open>new_commit\<close>. The table \<open>refs\<close> changes through these transactions only: it is the
  table before the cycles with the accepted transactions applied in order. (Transactions
  accepted inside a block whose commit never happened are rolled back with the block and
  are not part of the report.)
\<close>

theorem chain_of_custody:
  "custody_chain (get_head d k) (accepted_on k (snd (run_cycles lib d envs)))
     (get_head (fst (run_cycles lib d envs)) k) \<and>
   refs (fst (run_cycles lib d envs)) = replay (refs d) (snd (run_cycles lib d envs))"
proof (induction envs arbitrary: d)
  case Nil
  show ?case by (simp add: run_cycles_Nil)
next
  case (Cons env envs)
  obtain response n where env: "env = (response, n)" by (cases env)
  let ?r = "process_chain lib response n d"
  note s = process_chain_store [of lib response n d k]
  show ?case
  proof (cases "\<exists>e. status ?r = Uncaught e")
    case True
    with s show ?thesis by (auto simp: env run_cycles_Cons)
  next
    case False
    then have rc: "run_cycles lib d (env # envs) =
        (fst (run_cycles lib (store ?r) envs), report ?r @ snd (run_cycles lib (store ?r) envs))"
      by (cases "status ?r") (simp_all add: env run_cycles_Cons)
    from s Cons.IH [of "store ?r"] show ?thesis
      by (auto simp: rc intro: custody_chain_append)
  qed
qed


subsection \<open>C4: the checkpoint\<close>

text \<open>
  C4: in every cycle, whatever the response and the database faults, the checkpoint does
  not decrease; after the cycle it is the index of the last block the cycle committed (it
  is unchanged when the cycle committed none, or when the \<open>meta\<close> row is missing, where
  the \<open>UPDATE\<close> finds nothing to change). Every committed block has an index above the
  checkpoint the cycle started from and an outcome for each of its transactions, the
  committed blocks are in ascending order of index, and the table \<open>refs\<close> of the store is
  the table before the cycle with the committed blocks' accepted transactions applied: the
  checkpoint stands at a block only together with that block's committed changes. Blocks
  with an index at or below the checkpoint are filtered out before anything else: the
  cycle is the cycle of the filtered chain. Over any sequence of cycles the checkpoint does
  not decrease either.
\<close>

theorem checkpoint_invariant:
  "last_processed_block d \<le> last_processed_block (store (process_chain lib response n d)) \<and>
   last_processed_block (store (process_chain lib response n d)) =
     (if report (process_chain lib response n d) = [] \<or> meta d ''last_processed_block'' = None
      then last_processed_block d
      else index (fst (last (report (process_chain lib response n d))))) \<and>
   list_all (\<lambda>p. last_processed_block d < index (fst p) \<and>
                length (snd p) = length (transactions (fst p)))
     (report (process_chain lib response n d)) \<and>
   sorted (map (\<lambda>p. index (fst p)) (report (process_chain lib response n d))) \<and>
   refs (store (process_chain lib response n d)) =
     replay (refs d) (report (process_chain lib response n d)) \<and>
   process_chain lib (Fetched blocks) n d =
     process_chain lib (Fetched (filter (\<lambda>b. index b > last_processed_block d) blocks)) n d \<and>
   last_processed_block d \<le> last_processed_block (fst (run_cycles lib d envs))"
proof -
  let ?r = "process_chain lib response n d"
  note s = process_chain_store [of lib response n d "(''x'', ''y'')"]
  have evaluated: "list_all (\<lambda>p. last_processed_block d < index (fst p) \<and>
      length (snd p) = length (transactions (fst p))) (report ?r)"
    using s report_blocks_new [of _ lib response n d] by (auto simp: list_all_iff)
  have filtered: "process_chain lib (Fetched blocks) n d =
      process_chain lib (Fetched (filter (\<lambda>b. index b > last_processed_block d) blocks)) n d"
    by (rule process_chain_cong_new_blocks) (simp add: new_blocks_filter)
  have cycles: "last_processed_block d \<le> last_processed_block (fst (run_cycles lib d envs))"
  proof (induction envs arbitrary: d)
    case Nil
    show ?case by (simp add: run_cycles_Nil)
  next
    case (Cons env envs)
    obtain response n where env: "env = (response, n)" by (cases env)
    let ?q = "process_chain lib response n d"
    from checkpoint_mono [of d lib response n] Cons.IH [of "store ?q"]
    show ?case
      by (cases "status ?q") (auto simp: env run_cycles_Cons)
  qed
  from checkpoint_mono [of d lib response n] last_processed_block_store [of lib response n d]
    evaluated report_sorted [of lib response n d] s filtered cycles
  show ?thesis by blast
qed


theorem checkpoint_invariant_witness:
  "last_processed_block db_0 = 0 \<and>
   last_processed_block (store (process_chain demo_ecdsa (Fetched [block_2, block_1]) (Some 10) db_0))
     = 1 \<and>
   last_processed_block db_0
     \<le> last_processed_block (store (process_chain demo_ecdsa (Fetched [block_2, block_1]) (Some 10) db_0)) \<and>
   refs (store (process_chain demo_ecdsa (Fetched [block_2, block_1]) (Some 10) db_0)) =
     replay (refs db_0) (report (process_chain demo_ecdsa (Fetched [block_2, block_1]) (Some 10) db_0))"
  using checkpoint_invariant [where d = db_0 and response = "Fetched [block_2, block_1]"
      and lib = demo_ecdsa and n = "Some 10"] demo_cycle_fault(3)
  by (simp add: db_0_simps)

subsection \<open>C5: a block delivered again\<close>

lemma all_old_unchanged:
  assumes "new_blocks d chain = []"
  shows "process_chain lib (Fetched chain) n d =
    \<lparr>store = d, report = [], status = (if n = Some 0 then Database_error else No_new_blocks)\<rparr>"
proof (cases "execute (get_db_connection d n)")
  case (Inl e)
  then have "n = Some 0" "e = SqliteError"
    by (auto simp: execute_def get_db_connection_def split: option.splits nat.splits)
  with Inl show ?thesis by (simp add: process_chain_Fetched handler_def)
next
  case (Inr c1)
  then have "n \<noteq> Some 0" by (auto simp: execute_def get_db_connection_def)
  with Inr assms show ?thesis by (simp add: process_chain_Fetched)
qed

lemma status_No_new_blocks:
  assumes "status (process_chain lib (Fetched chain) n d) = No_new_blocks"
  shows "new_blocks d chain = []"
proof (rule ccontr)
  assume ne: "new_blocks d chain \<noteq> []"
  show False
  proof (cases "execute (get_db_connection d n)")
    case (Inl e)
    with assms show False by (simp add: process_chain_Fetched handler_def split: if_splits)
  next
    case (Inr c1)
    obtain c2 rep r where "process_blocks lib c1 (new_blocks d chain) = (c2, rep, r)"
      by (cases "process_blocks lib c1 (new_blocks d chain)")
    with Inr ne assms show False
      by (simp add: process_chain_Fetched handler_def split: option.splits if_splits)
  qed
qed

text \<open>
  C5: a block whose index is at or below the checkpoint is excluded by the index filter
  and never validated again. A cycle over a chain that holds such a block is the cycle
  over the chain without it; a cycle over a chain of such blocks only leaves the store as
  it was and commits nothing; and after a cycle that went through a chain (with the
  checkpoint row in place, as \<open>setup_database\<close> leaves it), a second cycle over the same
  chain leaves the store as the first one left it, whatever the database does then.
\<close>

theorem redelivery_idempotent:
  "(index b \<le> last_processed_block d \<longrightarrow>
      process_chain lib (Fetched (xs @ b # ys)) n d = process_chain lib (Fetched (xs @ ys)) n d) \<and>
   (list_all (\<lambda>b. index b \<le> last_processed_block d) blocks \<longrightarrow>
      process_chain lib (Fetched blocks) n d =
        \<lparr>store = d, report = [],
         status = (if n = Some 0 then Database_error else No_new_blocks)\<rparr>) \<and>
   (meta d ''last_processed_block'' \<noteq> None \<and>
    status (process_chain lib (Fetched blocks) m d) \<in> {Completed, No_new_blocks} \<longrightarrow>
      store (process_chain lib (Fetched blocks) n (store (process_chain lib (Fetched blocks) m d)))
        = store (process_chain lib (Fetched blocks) m d))"
proof (intro conjI impI)
  assume "index b \<le> last_processed_block d"
  then have "new_blocks d (xs @ b # ys) = new_blocks d (xs @ ys)"
    by (simp add: new_blocks_def)
  then show "process_chain lib (Fetched (xs @ b # ys)) n d =
      process_chain lib (Fetched (xs @ ys)) n d"
    by (rule process_chain_cong_new_blocks)
next
  assume "list_all (\<lambda>b. index b \<le> last_processed_block d) blocks"
  then have "new_blocks d blocks = []" by (rule new_blocks_old_Nil)
  then show "process_chain lib (Fetched blocks) n d =
      \<lparr>store = d, report = [],
       status = (if n = Some 0 then Database_error else No_new_blocks)\<rparr>"
    by (rule all_old_unchanged)
next
  let ?r = "process_chain lib (Fetched blocks) m d"
  assume a: "meta d ''last_processed_block'' \<noteq> None \<and> status ?r \<in> {Completed, No_new_blocks}"
  have "new_blocks (store ?r) blocks = []"
  proof (cases "status ?r = No_new_blocks")
    case True
    then have e: "new_blocks d blocks = []" by (rule status_No_new_blocks)
    then have "store ?r = d" by (simp add: all_old_unchanged)
    with e show ?thesis by simp
  next
    case False
    with a have st: "status ?r = Completed" by simp
    let ?nb = "new_blocks d blocks"
    from process_chain_prefix [of d blocks lib m] st
    have full: "map fst (report ?r) = ?nb" by auto
    have ne: "?nb \<noteq> []"
    proof
      assume "?nb = []"
      then have "status ?r \<noteq> Completed" by (simp add: all_old_unchanged)
      with st show False by simp
    qed
    with full have rne: "report ?r \<noteq> []" by auto
    then have "fst (last (report ?r)) = last (map fst (report ?r))"
      by (simp add: last_map)
    with full have l: "fst (last (report ?r)) = last ?nb" by simp
    from a have "meta d ''last_processed_block'' \<noteq> None" by blast
    with rne have cp: "last_processed_block (store ?r) = index (last ?nb)"
      by (simp only: last_processed_block_store l if_False simp_thms)
    from ne have "last ?nb \<in> set ?nb" by simp
    then have newer: "last_processed_block d < index (last ?nb)"
      by (simp add: new_blocks_set)
    have "\<And>x. x \<in> set blocks \<Longrightarrow> index x \<le> last_processed_block (store ?r)"
    proof -
      fix x assume x: "x \<in> set blocks"
      show "index x \<le> last_processed_block (store ?r)"
      proof (cases "last_processed_block d < index x")
        case True
        with x have "x \<in> set ?nb" by (simp add: new_blocks_set)
        from sorted_map_le_last [OF new_blocks_sorted this] cp show ?thesis by simp
      next
        case False
        with newer cp show ?thesis by simp
      qed
    qed
    then show ?thesis
      by (intro new_blocks_old_Nil) (simp add: list_all_iff)
  qed
  then show "store (process_chain lib (Fetched blocks) n (store ?r)) = store ?r"
    by (simp add: all_old_unchanged)
qed


theorem redelivery_idempotent_witness:
  "meta db_0 ''last_processed_block'' \<noteq> None \<and>
   status (process_chain demo_ecdsa (Fetched [block_2, block_1]) None db_0) = Completed \<and>
   store (process_chain demo_ecdsa (Fetched [block_2, block_1]) (Some 3)
            (store (process_chain demo_ecdsa (Fetched [block_2, block_1]) None db_0)))
     = store (process_chain demo_ecdsa (Fetched [block_2, block_1]) None db_0)"
  using redelivery_idempotent [where d = db_0 and lib = demo_ecdsa
      and blocks = "[block_2, block_1]" and m = None and n = "Some 3"]
    demo_cycle(1)
  by (simp add: db_0_simps)


subsection \<open>C6: a failing database call\<close>

text \<open>
  C6: whatever database call fails while a cycle is at block \<open>B\<close> (a read, a write, the
  checkpoint update or the commit), and whatever exception stops the cycle there, the store
  the cycle leaves is the store of a cycle without faults over the new blocks before \<open>B\<close>:
  every block before \<open>B\<close> is committed in full, nothing of \<open>B\<close> is. With \<open>j\<close> the number
  of committed blocks and \<open>B\<close> the new block at position \<open>j\<close>: the cycle did not end
  normally, the checkpoint is not above the index of \<open>B\<close>, and when the indices of the chain
  are distinct it is below it and \<open>B\<close> is among the new blocks of the next cycle over the
  same chain.
\<close>

theorem store_failure_atomicity:
  "\<exists>j \<le> length (new_blocks d chain).
     map fst (report (process_chain lib (Fetched chain) n d)) = take j (new_blocks d chain) \<and>
     process_chain lib (Fetched (take j (new_blocks d chain))) None d =
       \<lparr>store = store (process_chain lib (Fetched chain) n d),
        report = report (process_chain lib (Fetched chain) n d),
        status = (if j = 0 then No_new_blocks else Completed)\<rparr> \<and>
     (status (process_chain lib (Fetched chain) n d) \<in> {Completed, No_new_blocks}
        \<longrightarrow> j = length (new_blocks d chain)) \<and>
     (j < length (new_blocks d chain) \<longrightarrow>
        status (process_chain lib (Fetched chain) n d) \<notin> {Completed, No_new_blocks} \<and>
        new_blocks d chain ! j \<in> set chain \<and>
        last_processed_block (store (process_chain lib (Fetched chain) n d))
          \<le> index (new_blocks d chain ! j) \<and>
        (distinct (map index chain) \<longrightarrow>
           last_processed_block (store (process_chain lib (Fetched chain) n d))
             < index (new_blocks d chain ! j) \<and>
           new_blocks d chain ! j
             \<in> set (new_blocks (store (process_chain lib (Fetched chain) n d)) chain)))"
proof -
  let ?r = "process_chain lib (Fetched chain) n d"
  let ?nb = "new_blocks d chain"
  have idle: "process_chain lib (Fetched []) None d =
      \<lparr>store = d, report = [], status = No_new_blocks\<rparr>"
    using all_old_unchanged [of d "[]" lib None] by (simp add: new_blocks_def)
  have core: "\<exists>j \<le> length ?nb. map fst (report ?r) = take j ?nb \<and>
     process_chain lib (Fetched (take j ?nb)) None d =
       \<lparr>store = store ?r, report = report ?r,
        status = (if j = 0 then No_new_blocks else Completed)\<rparr> \<and>
     (status ?r \<in> {Completed, No_new_blocks} \<longrightarrow> j = length ?nb)"
  proof (cases "execute (get_db_connection d n)")
    case (Inl e)
    then have e: "e = SqliteError" by (rule execute_Inl)
    have r: "?r = \<lparr>store = d, report = [], status = Database_error\<rparr>"
      using Inl e by (simp add: process_chain_Fetched handler_def)
    show ?thesis
    proof (cases "?nb = []")
      case True
      from True r show ?thesis
        by (intro exI [of _ 0]) (simp add: idle)
    next
      case False
      with r show ?thesis
        by (intro exI [of _ 0]) (simp add: idle)
    qed
  next
    case (Inr c1)
    show ?thesis
    proof (cases "?nb = []")
      case True
      with Inr have r: "?r = \<lparr>store = d, report = [], status = No_new_blocks\<rparr>"
        by (simp add: process_chain_Fetched)
      from True r show ?thesis
        by (intro exI [of _ 0]) (simp add: idle)
    next
      case False
      obtain c2 rep ro where pb: "process_blocks lib c1 ?nb = (c2, rep, ro)"
        by (cases "process_blocks lib c1 ?nb")
      from execute_fresh [OF Inr] have clean: "working c1 = durable c1" by simp
      note facts = process_blocks_facts [OF pb clean, of "(''x'', ''y'')"]
      have r: "?r = \<lparr>store = durable c2, report = rep,
          status = (case ro of None \<Rightarrow> Completed | Some e \<Rightarrow> handler e)\<rparr>"
        using Inr False pb by (simp add: process_chain_Fetched)
      have st: "status ?r \<in> {Completed, No_new_blocks} \<longleftrightarrow> length rep = length ?nb"
        using facts by (cases ro) (auto simp: r handler_def)
      from prefix_run [OF Inr pb] facts st show ?thesis
        by (intro exI [of _ "length rep"]) (simp add: r)
    qed
  qed
  then obtain j where j: "j \<le> length ?nb" "map fst (report ?r) = take j ?nb"
    "process_chain lib (Fetched (take j ?nb)) None d =
       \<lparr>store = store ?r, report = report ?r,
        status = (if j = 0 then No_new_blocks else Completed)\<rparr>"
    "status ?r \<in> {Completed, No_new_blocks} \<longrightarrow> j = length ?nb"
    by blast
  have next_block: "j < length ?nb \<longrightarrow>
        status ?r \<notin> {Completed, No_new_blocks} \<and> ?nb ! j \<in> set chain \<and>
        last_processed_block (store ?r) \<le> index (?nb ! j) \<and>
        (distinct (map index chain) \<longrightarrow>
           last_processed_block (store ?r) < index (?nb ! j) \<and>
           ?nb ! j \<in> set (new_blocks (store ?r) chain))"
  proof
    assume lt: "j < length ?nb"
    then have "?nb ! j \<in> set ?nb" by simp
    then have mem: "?nb ! j \<in> set chain" by (simp add: new_blocks_set)
    note cb = checkpoint_below_next [OF j(2) lt]
    from lt j(4) have "status ?r \<notin> {Completed, No_new_blocks}" by auto
    with mem cb show "status ?r \<notin> {Completed, No_new_blocks} \<and> ?nb ! j \<in> set chain \<and>
        last_processed_block (store ?r) \<le> index (?nb ! j) \<and>
        (distinct (map index chain) \<longrightarrow>
           last_processed_block (store ?r) < index (?nb ! j) \<and>
           ?nb ! j \<in> set (new_blocks (store ?r) chain))"
      by (simp add: new_blocks_set)
  qed
  from j next_block show ?thesis by blast
qed

theorem store_failure_atomicity_witness:
  "status (process_chain demo_ecdsa (Fetched [block_2, block_1]) (Some 10) db_0) = Database_error \<and>
   (\<exists>j \<le> length (new_blocks db_0 [block_2, block_1]).
      map fst (report (process_chain demo_ecdsa (Fetched [block_2, block_1]) (Some 10) db_0)) =
        take j (new_blocks db_0 [block_2, block_1]) \<and>
      process_chain demo_ecdsa (Fetched (take j (new_blocks db_0 [block_2, block_1]))) None db_0 =
        \<lparr>store = store (process_chain demo_ecdsa (Fetched [block_2, block_1]) (Some 10) db_0),
         report = report (process_chain demo_ecdsa (Fetched [block_2, block_1]) (Some 10) db_0),
         status = (if j = 0 then No_new_blocks else Completed)\<rparr>)"
  using store_failure_atomicity [where d = db_0 and chain = "[block_2, block_1]"
      and lib = demo_ecdsa and n = "Some 10"] demo_cycle_fault(1)
  by blast

subsection \<open>C7: the canonical message\<close>

lemma map_fst_map_filter:
  "map fst (List.map_filter (\<lambda>k. map_option (Pair k) (m k)) ks) = filter (\<lambda>k. m k \<noteq> None) ks"
  by (induction ks) (auto simp: List.map_filter_simps split: option.splits)

lemma set_map_filter_lookup:
  "set (List.map_filter (\<lambda>k. map_option (Pair k) (m k)) ks) = {(k, v). k \<in> set ks \<and> m k = Some v}"
  by (induction ks) (auto simp: List.map_filter_simps split: option.splits)

lemma signed_names:
  "set [''new_commit'', ''old_commit'', ''ref'', ''repo_id''] = set signed_fields"
  unfolding signed_fields_def by (simp add: insert_commute)

lemma set_signed_items:
  "set (signed_items att) = {(k, v). k \<in> set signed_fields \<and> map_of att k = Some v}"
  unfolding signed_items_def set_map_filter_lookup signed_names ..

lemma sorted_items:
  assumes "distinct (map fst att)"
  shows "sort_key fst (attestation_data att) = signed_items att"
proof (rule map_sorted_distinct_set_unique [where f = fst])
  have sub: "set (sort_key fst (attestation_data att)) \<union> set (signed_items att) \<subseteq> set att"
    using assms by (auto simp: attestation_data_def set_signed_items)
  from assms have "inj_on fst (set att)" by (simp add: distinct_map)
  then show "inj_on fst (set (sort_key fst (attestation_data att)) \<union> set (signed_items att))"
    using sub by (rule inj_on_subset)
  show "sorted (map fst (sort_key fst (attestation_data att)))" by simp
  show "distinct (map fst (sort_key fst (attestation_data att)))"
    using assms by (simp add: attestation_data_def distinct_map_sort_key distinct_map_filter)
  have names: "sorted [''new_commit'', ''old_commit'', ''ref'', ''repo_id'']"
    "distinct [''new_commit'', ''old_commit'', ''ref'', ''repo_id'']"
    by simp_all
  show "sorted (map fst (signed_items att))"
    unfolding signed_items_def map_fst_map_filter using names(1) by (rule sorted_wrt_filter)
  show "distinct (map fst (signed_items att))"
    unfolding signed_items_def map_fst_map_filter using names(2) by (rule distinct_filter)
  show "set (sort_key fst (attestation_data att)) = set (signed_items att)"
    using assms by (auto simp: attestation_data_def set_signed_items)
qed

lemma map_filter_lookup_cong:
  "\<forall>k \<in> set ks. m k = m' k \<Longrightarrow>
   List.map_filter (\<lambda>k. map_option (Pair k) (m k)) ks =
   List.map_filter (\<lambda>k. map_option (Pair k) (m' k)) ks"
  by (induction ks) (auto simp: List.map_filter_simps split: option.splits)

lemma signed_items_cong:
  assumes "\<forall>k \<in> set signed_fields. map_of a k = map_of b k"
  shows "signed_items a = signed_items b"
  unfolding signed_items_def
proof (rule map_filter_lookup_cong)
  from assms show "\<forall>k \<in> set [''new_commit'', ''old_commit'', ''ref'', ''repo_id''].
      map_of a k = map_of b k"
    unfolding signed_names .
qed

lemma canonical_message_spec:
  "distinct (map fst att) \<Longrightarrow> canonical_message att = canonical_spec att"
  by (simp add: canonical_message_def canonical_spec_def sorted_items)

text \<open>
  C7: the message whose signature is checked is the serialization, with the field names in
  sorted order, of exactly the four fields \<open>repo_id\<close>, \<open>ref\<close>, \<open>old_commit\<close> and
  \<open>new_commit\<close> of the record: what \<open>verify_signature\<close> builds is the message of the
  specification. Neither \<open>signer_identity\<close> nor \<open>signature\<close> nor any other field of the
  record takes part, nor does the order of the record's fields: two records that agree on
  the four fields have the same message.
\<close>

theorem canonical_message_signed_fields:
  assumes "distinct (map fst a)" and "distinct (map fst b)"
    and "\<forall>k \<in> set signed_fields. map_of a k = map_of b k"
  shows "canonical_message a = canonical_spec a \<and> canonical_message a = canonical_message b"
  using assms signed_items_cong [OF assms(3)]
  by (simp add: canonical_message_spec canonical_spec_def)

theorem canonical_message_signed_fields_witness:
  "distinct (map fst (att_of_tx tx_genesis_a)) \<and> distinct (map fst att_genesis_a_other) \<and>
   map_of (att_of_tx tx_genesis_a) ''signature'' \<noteq> map_of att_genesis_a_other ''signature'' \<and>
   canonical_message (att_of_tx tx_genesis_a) = canonical_message att_genesis_a_other"
proof -
  have a: "distinct (map fst (att_of_tx tx_genesis_a))"
    by (simp add: att_of_tx_def tx_genesis_a_def demo_tx_def)
  have b: "distinct (map fst att_genesis_a_other)"
    by (simp add: att_genesis_a_other_def)
  have ab: "\<forall>k \<in> set signed_fields.
      map_of (att_of_tx tx_genesis_a) k = map_of att_genesis_a_other k"
    by (simp add: signed_fields_def att_of_tx_def tx_genesis_a_def demo_tx_def
        att_genesis_a_other_def)
  have s: "map_of (att_of_tx tx_genesis_a) ''signature'' \<noteq> map_of att_genesis_a_other ''signature''"
    by (simp add: att_of_tx_def tx_genesis_a_def demo_tx_def att_genesis_a_other_def)
  from canonical_message_signed_fields [OF a b ab] a b s show ?thesis by blast
qed

end
